theory Spec2Isabelle
  imports Complex_Main "HOL-Library.Sublist" "HOL-Library.List_Lexorder"
begin

section \<open>JavaScript values and array primitives\<close>

text \<open>
  The coordinates of a GeoJSON geometry are a tree of JavaScript arrays with numbers at
  the leaves. \<open>Undefined\<close> is what an out-of-range array read yields. Numbers are
  never computed with by the code, only moved and compared.
\<close>

datatype jsval = Undefined | Num real | Arr "jsval list"

text \<open>
  What a \<open>throw\<close> of the source or of the JavaScript runtime leaves behind:
  \<open>TypeError\<close> for a property read on \<open>undefined\<close> or a call of a method a value
  does not have, \<open>Error msg\<close> for the two \<open>throw Error(msg)\<close> of the source.
\<close>

datatype error = TypeError | Error string

text \<open>\<open>xs[i]\<close>: an index outside \<open>0 .. length - 1\<close> reads \<open>undefined\<close>.\<close>

definition js_index :: "'a list \<Rightarrow> int \<Rightarrow> 'a option" where
  "js_index xs i = (if 0 \<le> i \<and> i < int (length xs) then Some (xs ! nat i) else None)"

definition element :: "jsval list \<Rightarrow> int \<Rightarrow> jsval" where
  "element xs i = (case js_index xs i of None \<Rightarrow> Undefined | Some v \<Rightarrow> v)"

text \<open>
  \<open>Array.prototype.slice\<close>: a negative bound counts from the end, and both bounds
  are clamped to \<open>0 .. length\<close>.
\<close>

definition relative_index :: "int \<Rightarrow> nat \<Rightarrow> nat" where
  "relative_index i len = (if i < 0 then nat (max (int len + i) 0) else min (nat i) len)"

definition slice :: "'a list \<Rightarrow> int \<Rightarrow> int \<Rightarrow> 'a list" where
  "slice xs start fin =
     (let k = relative_index start (length xs);
          final = relative_index fin (length xs)
      in take (final - k) (drop k xs))"

definition slice_from :: "'a list \<Rightarrow> int \<Rightarrow> 'a list" where
  "slice_from xs start = drop (relative_index start (length xs)) xs"

text \<open>
  \<open>xs[i] = v\<close> on an array: inside the array it overwrites, beyond the end it
  extends the array with holes (read as \<open>undefined\<close>), and a negative \<open>i\<close> sets a
  property that is not an element, so the element list stays as it is.
\<close>

definition array_set :: "jsval list \<Rightarrow> int \<Rightarrow> jsval \<Rightarrow> jsval list" where
  "array_set xs i v =
     (if i < 0 then xs
      else if i < int (length xs) then xs[nat i := v]
      else xs @ replicate (nat i - length xs) Undefined @ [v])"

section \<open>The data model\<close>

record geometry =
  gtype :: string
  coordinates :: jsval

text \<open>
  A feature and a collection carry fields the editor never looks at
  (\<open>properties\<close>, \<open>id\<close>, \<open>bbox\<close>, ...): they are the type parameters.
\<close>

record 'p feature =
  properties :: 'p
  geometry :: geometry

record ('p, 'q) featureCollection =
  others :: 'q
  features :: "'p feature list"

datatype ('p, 'q) EditableFeatureCollection =
  EditableFeatureCollection (getObject: "('p, 'q) featureCollection")

section \<open>Replacing a position\<close>

function immutablyReplacePosition ::
  "jsval \<Rightarrow> int list option \<Rightarrow> jsval \<Rightarrow> bool \<Rightarrow> error + jsval" where
  "immutablyReplacePosition coords None updatedPosition isPolygonal = Inr coords"
| "immutablyReplacePosition coords (Some []) updatedPosition isPolygonal = Inr updatedPosition"
| "immutablyReplacePosition coords (Some [i]) updatedPosition isPolygonal =
     (case coords of
        Arr cs \<Rightarrow>
          (let updated = slice cs 0 i @ [updatedPosition] @ slice_from cs (i + 1)
           in if isPolygonal \<and> (i = 0 \<or> i = int (length cs) - 1)
              then Inr (Arr (array_set (array_set updated 0 updatedPosition)
                               (int (length cs) - 1) updatedPosition))
              else Inr (Arr updated))
      | _ \<Rightarrow> Inl TypeError)"
| "immutablyReplacePosition coords (Some (i # j # rest)) updatedPosition isPolygonal =
     (case coords of
        Arr cs \<Rightarrow>
          (case immutablyReplacePosition (element cs i) (Some (j # rest))
                  updatedPosition isPolygonal of
             Inl e \<Rightarrow> Inl e
           | Inr inner \<Rightarrow> Inr (Arr (slice cs 0 i @ [inner] @ slice_from cs (i + 1))))
      | _ \<Rightarrow> Inl TypeError)"
  by pat_completeness auto
termination
  by (relation "measure (\<lambda>(c, p, u, b). case p of None \<Rightarrow> 0 | Some xs \<Rightarrow> length xs)") auto

definition isPolygonal_of :: "geometry \<Rightarrow> bool" where
  "isPolygonal_of g = (gtype g = ''Polygon'' \<or> gtype g = ''MultiPolygon'')"

definition replacePosition ::
  "('p, 'q) EditableFeatureCollection \<Rightarrow> int \<Rightarrow> int list option \<Rightarrow> jsval
     \<Rightarrow> error + ('p, 'q) EditableFeatureCollection" where
  "replacePosition this featureIndex positionIndexes updatedPosition =
     (case js_index (features (getObject this)) featureIndex of
        None \<Rightarrow> Inl TypeError
      | Some featureToUpdate \<Rightarrow>
          (case immutablyReplacePosition (coordinates (geometry featureToUpdate))
                  positionIndexes updatedPosition (isPolygonal_of (geometry featureToUpdate)) of
             Inl e \<Rightarrow> Inl e
           | Inr updatedCoordinates \<Rightarrow>
               (let updatedFeature = featureToUpdate
                      \<lparr>geometry := (geometry featureToUpdate)\<lparr>coordinates := updatedCoordinates\<rparr>\<rparr>
                in Inr (EditableFeatureCollection ((getObject this)
                     \<lparr>features := slice (features (getObject this)) 0 featureIndex
                          @ [updatedFeature]
                          @ slice_from (features (getObject this)) (featureIndex + 1)\<rparr>)))))"

section \<open>Removing a position\<close>

function immutablyRemovePosition ::
  "jsval \<Rightarrow> int list option \<Rightarrow> bool \<Rightarrow> error + jsval" where
  "immutablyRemovePosition coords None isPolygonal = Inr coords"
| "immutablyRemovePosition coords (Some []) isPolygonal =
     Inl (Error ''Must specify the index of the position to remove'')"
| "immutablyRemovePosition coords (Some [i]) isPolygonal =
     (case coords of
        Arr cs \<Rightarrow>
          if isPolygonal \<and> length cs < 5
          then Inl (Error
            ''Cannot remove a position from a triangle as it will no longer be a polygon'')
          else
            (let updated = slice cs 0 i @ slice_from cs (i + 1)
             in if isPolygonal \<and> (i = 0 \<or> i = int (length cs) - 1)
                then (if i = 0
                      then Inr (Arr (array_set updated (int (length updated) - 1)
                                       (element updated 0)))
                      else if i = int (length cs) - 1
                      then Inr (Arr (array_set updated 0
                                       (element updated (int (length updated) - 1))))
                      else Inr (Arr updated))
                else Inr (Arr updated))
      | _ \<Rightarrow> Inl TypeError)"
| "immutablyRemovePosition coords (Some (i # j # rest)) isPolygonal =
     (case coords of
        Arr cs \<Rightarrow>
          (case immutablyRemovePosition (element cs i) (Some (j # rest)) isPolygonal of
             Inl e \<Rightarrow> Inl e
           | Inr inner \<Rightarrow> Inr (Arr (slice cs 0 i @ [inner] @ slice_from cs (i + 1))))
      | _ \<Rightarrow> Inl TypeError)"
  by pat_completeness auto
termination
  by (relation "measure (\<lambda>(c, p, b). case p of None \<Rightarrow> 0 | Some xs \<Rightarrow> length xs)") auto

definition removePosition ::
  "('p, 'q) EditableFeatureCollection \<Rightarrow> int \<Rightarrow> int list option
     \<Rightarrow> error + ('p, 'q) EditableFeatureCollection" where
  "removePosition this featureIndex positionIndexes =
     (case js_index (features (getObject this)) featureIndex of
        None \<Rightarrow> Inl TypeError
      | Some featureToUpdate \<Rightarrow>
          (case immutablyRemovePosition (coordinates (geometry featureToUpdate))
                  positionIndexes (isPolygonal_of (geometry featureToUpdate)) of
             Inl e \<Rightarrow> Inl e
           | Inr updatedCoordinates \<Rightarrow>
               (let updatedFeature = featureToUpdate
                      \<lparr>geometry := (geometry featureToUpdate)\<lparr>coordinates := updatedCoordinates\<rparr>\<rparr>
                in Inr (EditableFeatureCollection ((getObject this)
                     \<lparr>features := slice (features (getObject this)) 0 featureIndex
                          @ [updatedFeature]
                          @ slice_from (features (getObject this)) (featureIndex + 1)\<rparr>)))))"

section \<open>Edit handles\<close>

record handle =
  position :: jsval
  positionIndexes :: "int list"

text \<open>
  \<open>array.map((position, index) => ({position, positionIndexes: [..., index]}))\<close>,
  the indexes that come before \<open>index\<close> being those of the enclosing
  \<open>for\<close> statements.
\<close>

definition map_handles :: "int list \<Rightarrow> jsval list \<Rightarrow> handle list" where
  "map_handles outer ps =
     map (\<lambda>(index, p). \<lparr>position = p, positionIndexes = outer @ [int index]\<rparr>)
       (enumerate 0 ps)"

text \<open>
  The loop \<open>for (let b = ...; b < rings.length; b++) positions =
  positions.concat(rings[b].map(...))\<close>. An element that is \<open>undefined\<close> or a number
  has no \<open>map\<close>.
\<close>

function flatten_rings ::
  "int list \<Rightarrow> jsval list \<Rightarrow> nat \<Rightarrow> handle list \<Rightarrow> error + handle list" where
  "flatten_rings outer rings b positions =
     (if b < length rings
      then (case element rings (int b) of
              Arr ps \<Rightarrow>
                flatten_rings outer rings (b + 1)
                  (positions @ map_handles (outer @ [int b]) ps)
            | _ \<Rightarrow> Inl TypeError)
      else Inr positions)"
  by pat_completeness auto
termination
  by (relation "measure (\<lambda>(outer, rings, b, positions). length rings - b)") auto

text \<open>
  The outer loop of the \<open>MultiPolygon\<close> case. \<open>polygons[a].length\<close> of a number is
  \<open>undefined\<close>, so the inner loop does not run; of \<open>undefined\<close> it throws.
\<close>

function flatten_polygons ::
  "jsval list \<Rightarrow> nat \<Rightarrow> handle list \<Rightarrow> error + handle list" where
  "flatten_polygons polygons a positions =
     (if a < length polygons
      then (case element polygons (int a) of
              Arr rings \<Rightarrow>
                (case flatten_rings [int a] rings 0 positions of
                   Inl e \<Rightarrow> Inl e
                 | Inr positions' \<Rightarrow> flatten_polygons polygons (a + 1) positions')
            | Num n \<Rightarrow> flatten_polygons polygons (a + 1) positions
            | Undefined \<Rightarrow> Inl TypeError)
      else Inr positions)"
  by pat_completeness auto
termination
  by (relation "measure (\<lambda>(polygons, a, positions). length polygons - a)") auto

text \<open>Each \<open>for\<close> statement is unfolded one iteration at a time.\<close>

declare flatten_rings.simps [simp del] flatten_polygons.simps [simp del]

definition flattenPositions :: "geometry \<Rightarrow> error + handle list" where
  "flattenPositions g =
     (if gtype g = ''Point''
      then Inr [\<lparr>position = coordinates g, positionIndexes = []\<rparr>]
      else if gtype g = ''MultiPoint'' \<or> gtype g = ''LineString''
      then (case coordinates g of
              Arr ps \<Rightarrow> Inr (map_handles [] ps)
            | _ \<Rightarrow> Inl TypeError)
      else if gtype g = ''Polygon'' \<or> gtype g = ''MultiLineString''
      then (case coordinates g of
              Arr rings \<Rightarrow> flatten_rings [] rings 0 []
            | Num n \<Rightarrow> Inr []
            | Undefined \<Rightarrow> Inl TypeError)
      else if gtype g = ''MultiPolygon''
      then (case coordinates g of
              Arr polygons \<Rightarrow> flatten_polygons polygons 0 []
            | Num n \<Rightarrow> Inr []
            | Undefined \<Rightarrow> Inl TypeError)
      else Inl (Error (''Unhandled geometry type: '' @ gtype g)))"

definition getEditHandles ::
  "('p, 'q) EditableFeatureCollection \<Rightarrow> int \<Rightarrow> error + handle list" where
  "getEditHandles this featureIndex =
     (case js_index (features (getObject this)) featureIndex of
        None \<Rightarrow> Inl TypeError
      | Some f \<Rightarrow> flattenPositions (geometry f))"

section \<open>Vocabulary of the properties\<close>

text \<open>
  The value a sequence of indexes addresses in a coordinates tree, \<open>None\<close> when an
  index leaves the array it is applied to or is applied to something that is not an array.
\<close>

fun lookup_path :: "jsval \<Rightarrow> int list \<Rightarrow> jsval option" where
  "lookup_path v [] = Some v"
| "lookup_path v (i # rest) =
     (case v of
        Arr xs \<Rightarrow> (case js_index xs i of None \<Rightarrow> None | Some x \<Rightarrow> lookup_path x rest)
      | _ \<Rightarrow> None)"

subsection \<open>Example values\<close>

definition P :: "real \<Rightarrow> real \<Rightarrow> jsval" where
  "P x y = Arr [Num x, Num y]"

definition triangle_ring :: "jsval list" where
  "triangle_ring = [P 0 0, P 1 0, P 1 1, P 0 0]"

definition collection_of :: "geometry \<Rightarrow> (unit, unit) EditableFeatureCollection" where
  "collection_of g =
     EditableFeatureCollection \<lparr>others = (), features = [\<lparr>properties = (), geometry = g\<rparr>]\<rparr>"

definition triangle_polygon :: "(unit, unit) EditableFeatureCollection" where
  "triangle_polygon = collection_of \<lparr>gtype = ''Polygon'', coordinates = Arr [Arr triangle_ring]\<rparr>"

definition square_ring :: "jsval list" where
  "square_ring = [P 0 0, P 1 0, P 1 1, P 0 1, P 0 0]"

definition square_polygon :: "(unit, unit) EditableFeatureCollection" where
  "square_polygon = collection_of \<lparr>gtype = ''Polygon'', coordinates = Arr [Arr square_ring]\<rparr>"

text \<open>The error of the ring-size guard.\<close>

definition ring_too_small :: error where
  "ring_too_small =
     Error ''Cannot remove a position from a triangle as it will no longer be a polygon''"

text \<open>Whether a sequence of indexes leads to an array of the coordinates tree.\<close>

definition leads_to_array :: "jsval \<Rightarrow> int list \<Rightarrow> bool" where
  "leads_to_array c pre = (case lookup_path c pre of Some (Arr ring) \<Rightarrow> True | _ \<Rightarrow> False)"


text \<open>The error of a removal with an empty path.\<close>

definition must_specify :: error where
  "must_specify = Error ''Must specify the index of the position to remove''"

text \<open>A collection of two features with fields of their own.\<close>

definition two_features :: "(string, string) EditableFeatureCollection" where
  "two_features = EditableFeatureCollection
     \<lparr>others = ''FeatureCollection'',
      features =
        [\<lparr>properties = ''first'', geometry = \<lparr>gtype = ''Point'', coordinates = P 3 4\<rparr>\<rparr>,
         \<lparr>properties = ''second'',
          geometry = \<lparr>gtype = ''LineString'', coordinates = Arr [P 0 0, P 1 0, P 1 1]\<rparr>\<rparr>]\<rparr>"

text \<open>
  The nesting of the coordinates of each supported geometry type: how many indexes address
  a position.
\<close>

definition nesting :: "string \<Rightarrow> nat option" where
  "nesting t =
     (if t = ''Point'' then Some 0
      else if t = ''MultiPoint'' \<or> t = ''LineString'' then Some 1
      else if t = ''Polygon'' \<or> t = ''MultiLineString'' then Some 2
      else if t = ''MultiPolygon'' then Some 3
      else None)"

text \<open>A coordinates tree made of arrays down to a given nesting.\<close>

fun nested_arrays :: "nat \<Rightarrow> jsval \<Rightarrow> bool" where
  "nested_arrays 0 v = True"
| "nested_arrays (Suc d) v = (case v of Arr xs \<Rightarrow> list_all (nested_arrays d) xs | _ \<Rightarrow> False)"

text \<open>
  The handles of a geometry as the specification words them: one handle for each position,
  its path made of the indexes of the arrays around it, outermost first; the arrays are
  gone through in order, and an inner array is finished before the next outer element.
\<close>

definition prefixed :: "int list \<Rightarrow> handle \<Rightarrow> handle" where
  "prefixed outer h = h\<lparr>positionIndexes := outer @ positionIndexes h\<rparr>"

fun vertex_handles :: "nat \<Rightarrow> jsval \<Rightarrow> handle list" where
  "vertex_handles 0 v = [\<lparr>position = v, positionIndexes = []\<rparr>]"
| "vertex_handles (Suc d) v =
     (case v of
        Arr xs \<Rightarrow>
          concat (map (\<lambda>(i, x). map (prefixed [int i]) (vertex_handles d x)) (enumerate 0 xs))
      | _ \<Rightarrow> [])"

text \<open>The number of positions of a coordinates tree of a given nesting.\<close>

fun count_vertices :: "nat \<Rightarrow> jsval \<Rightarrow> nat" where
  "count_vertices 0 v = 1"
| "count_vertices (Suc d) v =
     (case v of Arr xs \<Rightarrow> sum_list (map (count_vertices d) xs) | _ \<Rightarrow> 0)"

text \<open>A MultiPolygon of 2 polygons of 1 ring of 4 positions each.\<close>

definition two_triangles :: "(unit, unit) EditableFeatureCollection" where
  "two_triangles = collection_of
     \<lparr>gtype = ''MultiPolygon'',
      coordinates = Arr [Arr [Arr triangle_ring], Arr [Arr [P 2 2, P 3 2, P 3 3, P 2 2]]]\<rparr>"

text \<open>
  A ring is closed when its first and last positions are equal; the rings of a Polygon are
  one level down, those of a MultiPolygon two levels down.
\<close>

definition ring_closed :: "jsval list \<Rightarrow> bool" where
  "ring_closed ring = (element ring 0 = element ring (int (length ring) - 1))"

fun rings_closed_at :: "nat \<Rightarrow> jsval \<Rightarrow> bool" where
  "rings_closed_at 0 v = (case v of Arr ring \<Rightarrow> ring_closed ring | _ \<Rightarrow> True)"
| "rings_closed_at (Suc n) v =
     (case v of Arr xs \<Rightarrow> list_all (rings_closed_at n) xs | _ \<Rightarrow> True)"

definition rings_closed :: "geometry \<Rightarrow> bool" where
  "rings_closed g =
     (if gtype g = ''Polygon'' then rings_closed_at 1 (coordinates g)
      else if gtype g = ''MultiPolygon'' then rings_closed_at 2 (coordinates g)
      else True)"

section \<open>The same code over a store of objects\<close>

text \<open>
  Whether an edit changes the collection an editor wraps is a question about objects that
  are shared and assigned to, which values alone cannot ask. Here the arrays and objects
  live in a store, a value is a number, \<open>undefined\<close> or a reference into the store,
  and the functions of the source are written again with the store passed along: the
  \<open>slice\<close> calls and the array and object literals allocate, and the assignments
  \<open>updated[...] = ...\<close> overwrite what is at the reference.
\<close>

datatype val = VUndefined | VNum real | VRef nat

text \<open>
  The objects: an array; a geometry with its \<open>type\<close> and \<open>coordinates\<close>; a
  feature with its \<open>geometry\<close> and all its other fields; a feature collection with
  its \<open>features\<close> and all its other fields; an \<open>EditableFeatureCollection\<close>
  with its \<open>featureCollection\<close>. An address is a position in the store, and
  allocation appends.
\<close>

datatype ('p, 'q) obj =
    Array "val list"
  | Geometry string val
  | Feature 'p val
  | Collection 'q val
  | Editor val

type_synonym ('p, 'q) store = "('p, 'q) obj list"

definition deref :: "('p, 'q) store \<Rightarrow> val \<Rightarrow> ('p, 'q) obj option" where
  "deref s v = (case v of VRef a \<Rightarrow> (if a < length s then Some (s ! a) else None) | _ \<Rightarrow> None)"

definition as_array :: "('p, 'q) store \<Rightarrow> val \<Rightarrow> val list option" where
  "as_array s v = (case deref s v of Some (Array xs) \<Rightarrow> Some xs | _ \<Rightarrow> None)"

definition alloc :: "('p, 'q) obj \<Rightarrow> ('p, 'q) store \<Rightarrow> (error + val) \<times> ('p, 'q) store" where
  "alloc ob s = (Inr (VRef (length s)), s @ [ob])"

text \<open>Sequencing: an error ends the computation with the store as it is then.\<close>

definition bind ::
  "(error + 'a) \<times> 's \<Rightarrow> ('a \<Rightarrow> 's \<Rightarrow> (error + 'b) \<times> 's) \<Rightarrow> (error + 'b) \<times> 's" where
  "bind m f = (case m of (Inl e, s) \<Rightarrow> (Inl e, s) | (Inr v, s) \<Rightarrow> f v s)"

definition slice_st ::
  "val \<Rightarrow> int \<Rightarrow> int \<Rightarrow> ('p, 'q) store \<Rightarrow> (error + val) \<times> ('p, 'q) store" where
  "slice_st c start fin s =
     (case as_array s c of
        None \<Rightarrow> (Inl TypeError, s)
      | Some xs \<Rightarrow> alloc (Array (slice xs start fin)) s)"

definition slice_from_st ::
  "val \<Rightarrow> int \<Rightarrow> ('p, 'q) store \<Rightarrow> (error + val) \<times> ('p, 'q) store" where
  "slice_from_st c start s =
     (case as_array s c of
        None \<Rightarrow> (Inl TypeError, s)
      | Some xs \<Rightarrow> alloc (Array (slice_from xs start)) s)"

text \<open>The array literal \<open>[...front, items, ...back]\<close>.\<close>

definition array_literal ::
  "val \<Rightarrow> val list \<Rightarrow> val \<Rightarrow> ('p, 'q) store \<Rightarrow> (error + val) \<times> ('p, 'q) store" where
  "array_literal front items back s =
     (case (as_array s front, as_array s back) of
        (Some xs, Some ys) \<Rightarrow> alloc (Array (xs @ items @ ys)) s
      | _ \<Rightarrow> (Inl TypeError, s))"

definition element_v :: "val list \<Rightarrow> int \<Rightarrow> val" where
  "element_v xs i = (case js_index xs i of None \<Rightarrow> VUndefined | Some v \<Rightarrow> v)"

definition element_st :: "('p, 'q) store \<Rightarrow> val \<Rightarrow> int \<Rightarrow> val" where
  "element_st s c i = (case as_array s c of None \<Rightarrow> VUndefined | Some xs \<Rightarrow> element_v xs i)"

definition array_set_v :: "val list \<Rightarrow> int \<Rightarrow> val \<Rightarrow> val list" where
  "array_set_v xs i v =
     (if i < 0 then xs
      else if i < int (length xs) then xs[nat i := v]
      else xs @ replicate (nat i - length xs) VUndefined @ [v])"

text \<open>The assignment \<open>r[i] = v\<close>: the array at the reference is overwritten.\<close>

definition array_set_st ::
  "val \<Rightarrow> int \<Rightarrow> val \<Rightarrow> ('p, 'q) store \<Rightarrow> (error + val) \<times> ('p, 'q) store" where
  "array_set_st r i v s =
     (case r of
        VRef a \<Rightarrow>
          (case as_array s r of
             None \<Rightarrow> (Inl TypeError, s)
           | Some xs \<Rightarrow> (Inr v, s[a := Array (array_set_v xs i v)]))
      | _ \<Rightarrow> (Inl TypeError, s))"

definition length_st :: "('p, 'q) store \<Rightarrow> val \<Rightarrow> int" where
  "length_st s c = (case as_array s c of None \<Rightarrow> 0 | Some xs \<Rightarrow> int (length xs))"

function immutablyReplacePosition_st ::
  "val \<Rightarrow> int list option \<Rightarrow> val \<Rightarrow> bool \<Rightarrow> ('p, 'q) store
     \<Rightarrow> (error + val) \<times> ('p, 'q) store" where
  "immutablyReplacePosition_st coords None updatedPosition isPolygonal s = (Inr coords, s)"
| "immutablyReplacePosition_st coords (Some []) updatedPosition isPolygonal s =
     (Inr updatedPosition, s)"
| "immutablyReplacePosition_st coords (Some [i]) updatedPosition isPolygonal s =
     bind (slice_st coords 0 i s) (\<lambda>front s.
     bind (slice_from_st coords (i + 1) s) (\<lambda>back s.
     bind (array_literal front [updatedPosition] back s) (\<lambda>updated s.
       if isPolygonal \<and> (i = 0 \<or> i = length_st s coords - 1)
       then bind (array_set_st updated 0 updatedPosition s) (\<lambda>_ s.
            bind (array_set_st updated (length_st s coords - 1) updatedPosition s) (\<lambda>_ s.
              (Inr updated, s)))
       else (Inr updated, s))))"
| "immutablyReplacePosition_st coords (Some (i # j # rest)) updatedPosition isPolygonal s =
     bind (slice_st coords 0 i s) (\<lambda>front s.
     bind (immutablyReplacePosition_st (element_st s coords i) (Some (j # rest))
             updatedPosition isPolygonal s) (\<lambda>inner s.
     bind (slice_from_st coords (i + 1) s) (\<lambda>back s.
       array_literal front [inner] back s)))"
  by pat_completeness auto
termination
  by (relation "measure (\<lambda>(c, p, u, b, s). case p of None \<Rightarrow> 0 | Some xs \<Rightarrow> length xs)") auto

function immutablyRemovePosition_st ::
  "val \<Rightarrow> int list option \<Rightarrow> bool \<Rightarrow> ('p, 'q) store
     \<Rightarrow> (error + val) \<times> ('p, 'q) store" where
  "immutablyRemovePosition_st coords None isPolygonal s = (Inr coords, s)"
| "immutablyRemovePosition_st coords (Some []) isPolygonal s =
     (Inl (Error ''Must specify the index of the position to remove''), s)"
| "immutablyRemovePosition_st coords (Some [i]) isPolygonal s =
     (case as_array s coords of
        None \<Rightarrow> (Inl TypeError, s)
      | Some cs \<Rightarrow>
          if isPolygonal \<and> length cs < 5
          then (Inl (Error
            ''Cannot remove a position from a triangle as it will no longer be a polygon''), s)
          else
            bind (slice_st coords 0 i s) (\<lambda>front s.
            bind (slice_from_st coords (i + 1) s) (\<lambda>back s.
            bind (array_literal front [] back s) (\<lambda>updated s.
              if isPolygonal \<and> (i = 0 \<or> i = length_st s coords - 1)
              then (if i = 0
                    then bind (array_set_st updated (length_st s updated - 1)
                                 (element_st s updated 0) s) (\<lambda>_ s. (Inr updated, s))
                    else if i = length_st s coords - 1
                    then bind (array_set_st updated 0
                                 (element_st s updated (length_st s updated - 1)) s)
                           (\<lambda>_ s. (Inr updated, s))
                    else (Inr updated, s))
              else (Inr updated, s)))))"
| "immutablyRemovePosition_st coords (Some (i # j # rest)) isPolygonal s =
     bind (slice_st coords 0 i s) (\<lambda>front s.
     bind (immutablyRemovePosition_st (element_st s coords i) (Some (j # rest))
             isPolygonal s) (\<lambda>inner s.
     bind (slice_from_st coords (i + 1) s) (\<lambda>back s.
       array_literal front [inner] back s)))"
  by pat_completeness auto
termination
  by (relation "measure (\<lambda>(c, p, b, s). case p of None \<Rightarrow> 0 | Some xs \<Rightarrow> length xs)") auto

text \<open>
  The object literals \<open>{...geometry, coordinates: c}\<close>,
  \<open>{...featureToUpdate, geometry: g}\<close> and
  \<open>{...this.featureCollection, features: fs}\<close>: a new object with the other fields
  copied.
\<close>

definition spread_geometry ::
  "val \<Rightarrow> val \<Rightarrow> ('p, 'q) store \<Rightarrow> (error + val) \<times> ('p, 'q) store" where
  "spread_geometry g updatedCoordinates s =
     (case deref s g of
        Some (Geometry t c) \<Rightarrow> alloc (Geometry t updatedCoordinates) s
      | _ \<Rightarrow> (Inl TypeError, s))"

definition spread_feature ::
  "val \<Rightarrow> val \<Rightarrow> ('p, 'q) store \<Rightarrow> (error + val) \<times> ('p, 'q) store" where
  "spread_feature f g' s =
     (case deref s f of
        Some (Feature p g) \<Rightarrow> alloc (Feature p g') s
      | _ \<Rightarrow> (Inl TypeError, s))"

definition spread_collection ::
  "val \<Rightarrow> val \<Rightarrow> ('p, 'q) store \<Rightarrow> (error + val) \<times> ('p, 'q) store" where
  "spread_collection fc features' s =
     (case deref s fc of
        Some (Collection q fs) \<Rightarrow> alloc (Collection q features') s
      | _ \<Rightarrow> (Inl TypeError, s))"

text \<open>
  The second half of \<open>replacePosition\<close> and \<open>removePosition\<close>, which is the
  same in both: the updated feature, the new features array, the new collection and the
  new editor.
\<close>

definition rebuild ::
  "val \<Rightarrow> val \<Rightarrow> val \<Rightarrow> val \<Rightarrow> int \<Rightarrow> val \<Rightarrow> ('p, 'q) store
     \<Rightarrow> (error + val) \<times> ('p, 'q) store" where
  "rebuild fc fs featureToUpdate g featureIndex updatedCoordinates s =
     bind (spread_geometry g updatedCoordinates s) (\<lambda>g' s.
     bind (spread_feature featureToUpdate g' s) (\<lambda>updatedFeature s.
     bind (slice_st fs 0 featureIndex s) (\<lambda>front s.
     bind (slice_from_st fs (featureIndex + 1) s) (\<lambda>back s.
     bind (array_literal front [updatedFeature] back s) (\<lambda>features' s.
     bind (spread_collection fc features' s) (\<lambda>updatedFeatureCollection s.
       alloc (Editor updatedFeatureCollection) s))))))"

definition getObject_st :: "('p, 'q) store \<Rightarrow> val \<Rightarrow> val" where
  "getObject_st s this = (case deref s this of Some (Editor fc) \<Rightarrow> fc | _ \<Rightarrow> VUndefined)"

text \<open>
  The reads \<open>this.featureCollection.features[featureIndex]\<close>,
  \<open>featureToUpdate.geometry.type\<close> and \<open>featureToUpdate.geometry.coordinates\<close>;
  \<open>None\<close> where one of them fails.
\<close>

definition locate ::
  "('p, 'q) store \<Rightarrow> val \<Rightarrow> int \<Rightarrow> (val \<times> val \<times> val \<times> val \<times> string \<times> val) option" where
  "locate s this featureIndex =
     (case deref s this of
        Some (Editor fc) \<Rightarrow>
          (case deref s fc of
             Some (Collection q fs) \<Rightarrow>
               (case deref s (element_st s fs featureIndex) of
                  Some (Feature p g) \<Rightarrow>
                    (case deref s g of
                       Some (Geometry t c) \<Rightarrow>
                         Some (fc, fs, element_st s fs featureIndex, g, t, c)
                     | _ \<Rightarrow> None)
                | _ \<Rightarrow> None)
           | _ \<Rightarrow> None)
      | _ \<Rightarrow> None)"

definition replacePosition_st ::
  "val \<Rightarrow> int \<Rightarrow> int list option \<Rightarrow> val \<Rightarrow> ('p, 'q) store
     \<Rightarrow> (error + val) \<times> ('p, 'q) store" where
  "replacePosition_st this featureIndex indexes updatedPosition s =
     (case locate s this featureIndex of
        None \<Rightarrow> (Inl TypeError, s)
      | Some (fc, fs, featureToUpdate, g, t, c) \<Rightarrow>
          bind (immutablyReplacePosition_st c indexes updatedPosition
                  (t = ''Polygon'' \<or> t = ''MultiPolygon'') s)
            (rebuild fc fs featureToUpdate g featureIndex))"

definition removePosition_st ::
  "val \<Rightarrow> int \<Rightarrow> int list option \<Rightarrow> ('p, 'q) store
     \<Rightarrow> (error + val) \<times> ('p, 'q) store" where
  "removePosition_st this featureIndex indexes s =
     (case locate s this featureIndex of
        None \<Rightarrow> (Inl TypeError, s)
      | Some (fc, fs, featureToUpdate, g, t, c) \<Rightarrow>
          bind (immutablyRemovePosition_st c indexes
                  (t = ''Polygon'' \<or> t = ''MultiPolygon'') s)
            (rebuild fc fs featureToUpdate g featureIndex))"

text \<open>
  A store that holds the Polygon of 4 positions, its editor at address 9, and the new
  position \<open>[5, 5]\<close> at address 10.
\<close>

definition triangle_store :: "(unit, unit) store" where
  "triangle_store =
     [Array [VNum 0, VNum 0], Array [VNum 1, VNum 0], Array [VNum 1, VNum 1],
      Array [VRef 0, VRef 1, VRef 2, VRef 0],
      Array [VRef 3],
      Geometry ''Polygon'' (VRef 4),
      Feature () (VRef 5),
      Array [VRef 6],
      Collection () (VRef 7),
      Editor (VRef 8),
      Array [VNum 5, VNum 5]]"

text \<open>
  A reference stands for a value when the store holds that value under it: for
  coordinates, features, collections and editors.
\<close>

fun repr :: "('p, 'q) store \<Rightarrow> val \<Rightarrow> jsval \<Rightarrow> bool" where
  "repr s v Undefined = (v = VUndefined)"
| "repr s v (Num n) = (v = VNum n)"
| "repr s v (Arr js) =
     (case as_array s v of None \<Rightarrow> False | Some vs \<Rightarrow> list_all2 (repr s) vs js)"

definition repr_feature :: "('p, 'q) store \<Rightarrow> val \<Rightarrow> 'p feature \<Rightarrow> bool" where
  "repr_feature s v f =
     (case deref s v of
        Some (Feature p g) \<Rightarrow>
          p = properties f \<and>
          (case deref s g of
             Some (Geometry t c) \<Rightarrow>
               t = gtype (geometry f) \<and> repr s c (coordinates (geometry f))
           | _ \<Rightarrow> False)
      | _ \<Rightarrow> False)"

definition repr_collection ::
  "('p, 'q) store \<Rightarrow> val \<Rightarrow> ('p, 'q) featureCollection \<Rightarrow> bool" where
  "repr_collection s v fc =
     (case deref s v of
        Some (Collection q fs) \<Rightarrow>
          q = others fc \<and>
          (case as_array s fs of
             None \<Rightarrow> False
           | Some vs \<Rightarrow> list_all2 (repr_feature s) vs (features fc))
      | _ \<Rightarrow> False)"

definition repr_editor ::
  "('p, 'q) store \<Rightarrow> val \<Rightarrow> ('p, 'q) EditableFeatureCollection \<Rightarrow> bool" where
  "repr_editor s this e =
     (case deref s this of
        Some (Editor fc) \<Rightarrow> repr_collection s fc (getObject e)
      | _ \<Rightarrow> False)"

text \<open>
  What a call leaves untouched: every object of the store before the call is there after
  it as it was, so the editor still wraps the same reference and the same value; and a
  result is an editor allocated by the call that wraps a collection allocated by the call.
\<close>

definition is_new_editor :: "('p, 'q) store \<Rightarrow> ('p, 'q) store \<Rightarrow> val \<Rightarrow> bool" where
  "is_new_editor s s' this' =
     (case this' of
        VRef a \<Rightarrow>
          length s \<le> a \<and>
          (case deref s' this' of
             Some (Editor fc) \<Rightarrow>
               (case fc of
                  VRef b \<Rightarrow>
                    length s \<le> b \<and>
                    (case deref s' fc of Some (Collection q fs) \<Rightarrow> True | _ \<Rightarrow> False)
                | _ \<Rightarrow> False)
           | _ \<Rightarrow> False)
      | _ \<Rightarrow> False)"

definition leaves_untouched ::
  "('p, 'q) store \<Rightarrow> val \<Rightarrow> ('p, 'q) EditableFeatureCollection
     \<Rightarrow> (error + val) \<times> ('p, 'q) store \<Rightarrow> bool" where
  "leaves_untouched s this e m =
     (prefix s (snd m)
      \<and> getObject_st (snd m) this = getObject_st s this
      \<and> repr_editor (snd m) this e
      \<and> (case fst m of Inl err \<Rightarrow> True | Inr this' \<Rightarrow> is_new_editor s (snd m) this'))"

text \<open>A computation grows the store when the store before is a prefix of the one after.\<close>

definition grows :: "'s list \<Rightarrow> 'r \<times> 's list \<Rightarrow> bool" where
  "grows s m = prefix s (snd m)"

text \<open>
  A computation over the store simulates a result over values: it fails with the same
  error, or it returns a reference that stands for the value returned.
\<close>

definition sim ::
  "('s \<Rightarrow> val \<Rightarrow> 'j \<Rightarrow> bool) \<Rightarrow> (error + val) \<times> 's \<Rightarrow> error + 'j \<Rightarrow> bool" where
  "sim R m r =
     (case fst m of
        Inl e \<Rightarrow> r = Inl e
      | Inr v \<Rightarrow> (case r of Inl e \<Rightarrow> False | Inr j \<Rightarrow> R (snd m) v j))"

text \<open>
  A call returns a new editor for a value: it succeeds, and its result is an editor
  allocated by the call, with a collection allocated by the call, that stands for the value.
\<close>

definition returns_new_editor_for ::
  "('p, 'q) store \<Rightarrow> ('p, 'q) EditableFeatureCollection
     \<Rightarrow> (error + val) \<times> ('p, 'q) store \<Rightarrow> bool" where
  "returns_new_editor_for s e m =
     (case fst m of
        Inl err \<Rightarrow> False
      | Inr this' \<Rightarrow> is_new_editor s (snd m) this' \<and> repr_editor (snd m) this' e)"

text \<open>The references held by the \<open>features\<close> array of the collection an editor wraps.\<close>

definition features_st :: "('p, 'q) store \<Rightarrow> val \<Rightarrow> val list option" where
  "features_st s this =
     (case deref s (getObject_st s this) of
        Some (Collection q fs) \<Rightarrow> as_array s fs
      | _ \<Rightarrow> None)"

text \<open>
  A store that holds the collection of two features, its editor at address 11, and the
  new position \<open>[5, 5]\<close> at address 12.
\<close>

definition two_features_store :: "(string, string) store" where
  "two_features_store =
     [Array [VNum 3, VNum 4],
      Geometry ''Point'' (VRef 0),
      Feature ''first'' (VRef 1),
      Array [VNum 0, VNum 0], Array [VNum 1, VNum 0], Array [VNum 1, VNum 1],
      Array [VRef 3, VRef 4, VRef 5],
      Geometry ''LineString'' (VRef 6),
      Feature ''second'' (VRef 7),
      Array [VRef 2, VRef 8],
      Collection ''FeatureCollection'' (VRef 9),
      Editor (VRef 10),
      Array [VNum 5, VNum 5]]"

section \<open>Array primitives at valid indexes\<close>

lemma js_index_Some: "js_index xs i = Some x \<longleftrightarrow> 0 \<le> i \<and> i < int (length xs) \<and> x = xs ! nat i"
  by (auto simp: js_index_def)

lemma splice_valid:
  assumes "0 \<le> i" "i < int (length xs)"
  shows "slice xs 0 i @ y # slice_from xs (i + 1) = xs[nat i := y]"
proof -
  have "relative_index i (length xs) = nat i" using assms by (simp add: relative_index_def)
  moreover have "relative_index (i + 1) (length xs) = Suc (nat i)"
    using assms by (simp add: relative_index_def nat_add_distrib)
  moreover have "relative_index 0 (length xs) = 0" by (simp add: relative_index_def)
  ultimately show ?thesis using assms
    by (simp add: slice_def slice_from_def upd_conv_take_nth_drop)
qed

lemma cut_valid:
  assumes "0 \<le> i" "i < int (length xs)"
  shows "slice xs 0 i @ slice_from xs (i + 1) = take (nat i) xs @ drop (Suc (nat i)) xs"
proof -
  have "relative_index i (length xs) = nat i" using assms by (simp add: relative_index_def)
  moreover have "relative_index (i + 1) (length xs) = Suc (nat i)"
    using assms by (simp add: relative_index_def nat_add_distrib)
  moreover have "relative_index 0 (length xs) = 0" by (simp add: relative_index_def)
  ultimately show ?thesis using assms
    by (simp add: slice_def slice_from_def)
qed

lemma element_nth: "0 \<le> i \<Longrightarrow> i < int (length xs) \<Longrightarrow> element xs i = xs ! nat i"
  by (simp add: element_def js_index_def)

lemma replace_terminal_endpoint:
  assumes "0 \<le> k" "k < int (length ring)" "k = 0 \<or> k = int (length ring) - 1"
  shows "immutablyReplacePosition (Arr ring) (Some [k]) p True
           = Inr (Arr ((ring[nat k := p])[0 := p, length ring - 1 := p]))"
  using assms
  by (auto simp: splice_valid array_set_def Let_def nat_diff_distrib)

lemma replace_terminal_other:
  assumes "0 \<le> k" "k < int (length ring)" "\<not> (b \<and> (k = 0 \<or> k = int (length ring) - 1))"
  shows "immutablyReplacePosition (Arr ring) (Some [k]) p b = Inr (Arr (ring[nat k := p]))"
  using assms
  by (auto simp: splice_valid array_set_def Let_def)

lemma replace_descend:
  assumes "lookup_path c pre = Some (Arr ring)"
    and "immutablyReplacePosition (Arr ring) (Some [k]) p b = Inr r"
  shows "\<exists>c'. immutablyReplacePosition c (Some (pre @ [k])) p b = Inr c'
            \<and> lookup_path c' pre = Some r"
  using assms
proof (induction pre arbitrary: c)
  case Nil
  then show ?case by simp
next
  case (Cons i pre)
  from Cons.prems(1) obtain cs x where c: "c = Arr cs" and x: "js_index cs i = Some x"
    and l: "lookup_path x pre = Some (Arr ring)"
    by (auto split: jsval.splits option.splits)
  from Cons.IH[OF l Cons.prems(2)] obtain x' where
    r: "immutablyReplacePosition x (Some (pre @ [k])) p b = Inr x'" and l': "lookup_path x' pre = Some r"
    by blast
  from x have i: "0 \<le> i" "i < int (length cs)" and xe: "element cs i = x"
    by (auto simp: js_index_Some element_nth)
  obtain j rest where pk: "pre @ [k] = j # rest" by (cases pre) auto
  have "immutablyReplacePosition c (Some (i # pre @ [k])) p b = Inr (Arr (cs[nat i := x']))"
    using r xe i unfolding pk c by (simp add: splice_valid)
  moreover have "lookup_path (Arr (cs[nat i := x'])) (i # pre) = Some r"
    using i l' by (simp add: js_index_def)
  ultimately show ?case by simp
qed

lemma js_index_update:
  "js_index xs i = Some x \<Longrightarrow> js_index (xs[nat i := y]) i = Some y"
  by (auto simp: js_index_def split: if_splits)

lemma replacePosition_valid:
  assumes "js_index (features (getObject e)) fi = Some f"
    and "immutablyReplacePosition (coordinates (geometry f)) path p
           (isPolygonal_of (geometry f)) = Inr c'"
  shows "replacePosition e fi path p =
           Inr (EditableFeatureCollection ((getObject e)
             \<lparr>features := (features (getObject e))
                [nat fi := f\<lparr>geometry := (geometry f)\<lparr>coordinates := c'\<rparr>\<rparr>]\<rparr>))"
proof -
  from assms(1) have "0 \<le> fi" "fi < int (length (features (getObject e)))"
    by (simp_all add: js_index_Some)
  then show ?thesis using assms
    by (simp add: replacePosition_def splice_valid)
qed

section \<open>Properties of replacePosition\<close>

text \<open>The example of the specification, evaluated.\<close>

lemma replace_example:
  "replacePosition triangle_polygon 0 (Some [0, 0]) (P 5 5)
     = Inr (collection_of \<lparr>gtype = ''Polygon'',
              coordinates = Arr [Arr [P 5 5, P 1 0, P 1 1, P 5 5]]\<rparr>)"
  by (simp add: replacePosition_def triangle_polygon_def collection_of_def triangle_ring_def
      js_index_def element_def isPolygonal_of_def slice_def slice_from_def relative_index_def
      array_set_def Let_def)

section \<open>Properties of removePosition\<close>

lemma remove_descend_error:
  assumes "lookup_path c pre = Some (Arr ring)"
    and "immutablyRemovePosition (Arr ring) (Some [k]) b = Inl err"
  shows "immutablyRemovePosition c (Some (pre @ [k])) b = Inl err"
  using assms
proof (induction pre arbitrary: c)
  case Nil
  then show ?case by simp
next
  case (Cons i pre)
  from Cons.prems(1) obtain cs x where c: "c = Arr cs" and x: "js_index cs i = Some x"
    and l: "lookup_path x pre = Some (Arr ring)"
    by (auto split: jsval.splits option.splits)
  from x have xe: "element cs i = x" by (simp add: element_def)
  obtain j rest where pk: "pre @ [k] = j # rest" by (cases pre) auto
  show ?case using Cons.IH[OF l Cons.prems(2)] xe unfolding c by (simp add: pk)
qed

lemma remove_descend:
  assumes "lookup_path c pre = Some (Arr ring)"
    and "immutablyRemovePosition (Arr ring) (Some [k]) b = Inr r"
  shows "\<exists>c'. immutablyRemovePosition c (Some (pre @ [k])) b = Inr c'
            \<and> lookup_path c' pre = Some r"
  using assms
proof (induction pre arbitrary: c)
  case Nil
  then show ?case by simp
next
  case (Cons i pre)
  from Cons.prems(1) obtain cs x where c: "c = Arr cs" and x: "js_index cs i = Some x"
    and l: "lookup_path x pre = Some (Arr ring)"
    by (auto split: jsval.splits option.splits)
  from Cons.IH[OF l Cons.prems(2)] obtain x' where
    r: "immutablyRemovePosition x (Some (pre @ [k])) b = Inr x'" and l': "lookup_path x' pre = Some r"
    by blast
  from x have i: "0 \<le> i" "i < int (length cs)" and xe: "element cs i = x"
    by (auto simp: js_index_Some element_nth)
  obtain j rest where pk: "pre @ [k] = j # rest" by (cases pre) auto
  have "immutablyRemovePosition c (Some (i # pre @ [k])) b = Inr (Arr (cs[nat i := x']))"
    using r xe i unfolding pk c by (simp add: splice_valid)
  moreover have "lookup_path (Arr (cs[nat i := x'])) (i # pre) = Some r"
    using i l' by (simp add: js_index_def)
  ultimately show ?case by simp
qed

lemma removePosition_valid:
  assumes "js_index (features (getObject e)) fi = Some f"
    and "immutablyRemovePosition (coordinates (geometry f)) path
           (isPolygonal_of (geometry f)) = Inr c'"
  shows "removePosition e fi path =
           Inr (EditableFeatureCollection ((getObject e)
             \<lparr>features := (features (getObject e))
                [nat fi := f\<lparr>geometry := (geometry f)\<lparr>coordinates := c'\<rparr>\<rparr>]\<rparr>))"
proof -
  from assms(1) have "0 \<le> fi" "fi < int (length (features (getObject e)))"
    by (simp_all add: js_index_Some)
  then show ?thesis using assms
    by (simp add: removePosition_def splice_valid)
qed

lemma removePosition_error:
  assumes "js_index (features (getObject e)) fi = Some f"
    and "immutablyRemovePosition (coordinates (geometry f)) path
           (isPolygonal_of (geometry f)) = Inl err"
  shows "removePosition e fi path = Inl err"
  using assms by (simp add: removePosition_def)

lemma array_set_valid:
  "0 \<le> i \<Longrightarrow> i < int (length xs) \<Longrightarrow> array_set xs i v = xs[nat i := v]"
  by (simp add: array_set_def)

lemma remove_terminal_first:
  assumes "5 \<le> length ring"
  shows "immutablyRemovePosition (Arr ring) (Some [0]) True
           = Inr (Arr ((tl ring)[length ring - 2 := ring ! 1]))"
proof -
  let ?u = "tl ring"
  have ne: "ring \<noteq> []" using assms by auto
  have u: "slice ring 0 0 @ slice_from ring 1 = ?u"
    using ne cut_valid[of 0 ring] by (simp add: drop_Suc)
  have e0: "element ?u 0 = ring ! 1"
    using assms by (simp add: element_nth nth_tl)
  have k: "0 \<le> int (length ?u) - 1" "int (length ?u) - 1 < int (length ?u)"
    "nat (int (length ?u) - 1) = length ring - 2"
    using assms by auto
  have "array_set ?u (int (length ?u) - 1) (element ?u 0) = ?u[length ring - 2 := ring ! 1]"
    unfolding array_set_valid[OF k(1,2)] k(3) e0 ..
  then show ?thesis using assms by (simp add: u)
qed

lemma remove_terminal_last:
  assumes "5 \<le> length ring"
  shows "immutablyRemovePosition (Arr ring) (Some [int (length ring) - 1]) True
           = Inr (Arr ((butlast ring)[0 := ring ! (length ring - 2)]))"
proof -
  let ?k = "int (length ring) - 1"
  let ?u = "butlast ring"
  have k: "0 \<le> ?k" "?k < int (length ring)" "nat ?k = length ring - 1" using assms by auto
  have u: "slice ring 0 ?k @ slice_from ring (?k + 1) = ?u"
    using cut_valid[OF k(1,2)] assms unfolding k(3) by (simp add: butlast_conv_take)
  have j: "0 \<le> int (length ?u) - 1" "int (length ?u) - 1 < int (length ?u)"
    "nat (int (length ?u) - 1) = length ring - 2"
    using assms by auto
  have el: "element ?u (int (length ?u) - 1) = ring ! (length ring - 2)"
    unfolding element_nth[OF j(1,2)] j(3) using assms by (simp add: nth_butlast)
  have z: "(0::int) \<le> 0" "0 < int (length ?u)" using assms by auto
  have "array_set ?u 0 (element ?u (int (length ?u) - 1)) = ?u[0 := ring ! (length ring - 2)]"
    unfolding array_set_valid[OF z] el by simp
  moreover have "?k \<noteq> 0" using assms by auto
  moreover have "\<not> length ring < 5" using assms by auto
  ultimately show ?thesis
    unfolding immutablyRemovePosition.simps jsval.case u Let_def by simp
qed

lemma remove_terminal_too_small:
  assumes "length ring < 5"
  shows "immutablyRemovePosition (Arr ring) (Some [k]) True
           = Inl (Error ''Cannot remove a position from a triangle as it will no longer be a polygon'')"
  using assms by simp

section \<open>Which calls fail\<close>

lemma lookup_path_snoc:
  "lookup_path c (pre @ [k]) =
     (case lookup_path c pre of
        Some (Arr ring) \<Rightarrow> js_index ring k
      | _ \<Rightarrow> None)"
proof (induction pre arbitrary: c)
  case Nil
  show ?case by (simp split: jsval.splits option.splits)
next
  case (Cons i pre)
  show ?case by (simp add: Cons.IH split: jsval.splits option.splits)
qed

lemma replace_terminal_total:
  "\<exists>r. immutablyReplacePosition (Arr ring) (Some [k]) p b = Inr (Arr r)"
  by (simp add: Let_def)

lemma replace_accepts:
  assumes "leads_to_array c pre"
  shows "\<exists>c'. immutablyReplacePosition c (Some (pre @ [k])) p b = Inr c'"
proof -
  from assms obtain ring where l: "lookup_path c pre = Some (Arr ring)"
    by (auto simp: leads_to_array_def split: option.splits jsval.splits)
  obtain r where "immutablyReplacePosition (Arr ring) (Some [k]) p b = Inr (Arr r)"
    using replace_terminal_total by blast
  from replace_descend[OF l this] show ?thesis by blast
qed













lemma replace_valid_path_succeeds:
  assumes "lookup_path c path \<noteq> None"
  shows "\<exists>c'. immutablyReplacePosition c (Some path) p b = Inr c'"
proof (cases path rule: rev_cases)
  case Nil
  then show ?thesis by simp
next
  case (snoc pre k)
  with assms have "leads_to_array c pre"
    by (auto simp: lookup_path_snoc leads_to_array_def split: option.splits jsval.splits)
  from replace_accepts[OF this] show ?thesis unfolding snoc .
qed

text \<open>
  The length of a path is not compared with the nesting of the geometry. A path one index
  longer than the nesting applies its last index to a position, which is an array of
  numbers: the replacement then writes the new position inside the addressed position, and
  the removal treats the position as a ring. Only a path whose index before the last is
  applied to a number fails.
\<close>

lemma replace_path_into_position:
  "replacePosition triangle_polygon 0 (Some [0, 0, 0]) (P 5 5)
     = Inr (collection_of \<lparr>gtype = ''Polygon'',
              coordinates = Arr [Arr [Arr [P 5 5, P 5 5], P 1 0, P 1 1, P 0 0]]\<rparr>)"
  by code_simp

lemma remove_path_into_position:
  "removePosition triangle_polygon 0 (Some [0, 0, 0]) = Inl ring_too_small"
  by code_simp

lemma replace_path_into_point:
  "replacePosition (collection_of \<lparr>gtype = ''Point'', coordinates = P 3 4\<rparr>) 0 (Some [0])
       (P 5 5)
     = Inr (collection_of \<lparr>gtype = ''Point'', coordinates = Arr [P 5 5, Num 4]\<rparr>)"
  by code_simp

lemma replace_path_through_number:
  "replacePosition triangle_polygon 0 (Some [0, 0, 0, 0]) (P 5 5) = Inl TypeError"
  by code_simp

section \<open>Properties of getEditHandles\<close>

lemma prefixed_append: "prefixed (a @ b) h = prefixed a (prefixed b h)"
  by (simp add: prefixed_def)

lemma prefixed_Nil: "map (prefixed []) hs = hs"
  by (induction hs) (simp_all add: prefixed_def)

lemma map_handles_eq:
  "map_handles outer ps = map (prefixed outer) (vertex_handles 1 (Arr ps))"
proof -
  have "map (\<lambda>(index, p). \<lparr>position = p, positionIndexes = outer @ [int index]\<rparr>) es
      = map (prefixed outer)
          (concat (map (\<lambda>(i, x). map (prefixed [int i]) [\<lparr>position = x, positionIndexes = []\<rparr>]) es))"
    for es :: "(nat \<times> jsval) list"
    by (induction es) (auto simp: prefixed_def)
  then show ?thesis by (simp add: map_handles_def)
qed

lemma flatten_rings_eq:
  assumes "\<forall>x \<in> set rings. \<exists>ps. x = Arr ps"
  shows "flatten_rings outer rings b positions =
           Inr (positions @ concat (map (\<lambda>(i, x). map (prefixed (outer @ [int i])) (vertex_handles 1 x))
                                     (drop b (enumerate 0 rings))))"
proof (induction "length rings - b" arbitrary: b positions)
  case 0
  then have "\<not> b < length rings" by simp
  then show ?case by (subst flatten_rings.simps) simp
next
  case (Suc n)
  then have b: "b < length rings" and n: "n = length rings - Suc b" by auto
  from assms b obtain ps where ps: "rings ! b = Arr ps" by (metis nth_mem)
  have el: "element rings (int b) = Arr ps"
    using b ps by (simp add: element_def js_index_def)
  have dr: "drop b (enumerate 0 rings) = (b, Arr ps) # drop (b + 1) (enumerate 0 rings)"
    using b ps by (simp add: Cons_nth_drop_Suc[symmetric] nth_enumerate_eq)
  have "flatten_rings outer rings b positions
          = flatten_rings outer rings (b + 1) (positions @ map_handles (outer @ [int b]) ps)"
    by (subst flatten_rings.simps) (simp add: b el)
  then show ?case
    by (simp add: Suc.hyps(1)[OF n] dr map_handles_eq del: vertex_handles.simps)
qed

lemma flatten_rings_all:
  assumes "\<forall>x \<in> set rings. \<exists>ps. x = Arr ps"
  shows "flatten_rings outer rings 0 positions =
           Inr (positions @ map (prefixed outer) (vertex_handles 2 (Arr rings)))"
proof -
  have "concat (map (\<lambda>(i, x). map (prefixed (outer @ [int i])) (vertex_handles 1 x)) es)
      = map (prefixed outer)
          (concat (map (\<lambda>(i, x). map (prefixed [int i]) (vertex_handles (Suc 0) x)) es))"
    for es :: "(nat \<times> jsval) list"
    by (induction es) (auto simp: prefixed_append)
  then show ?thesis
    using flatten_rings_eq[OF assms, of outer 0 positions]
    by (simp add: numeral_2_eq_2 del: vertex_handles.simps(2)[of 0])
qed

lemma flatten_polygons_eq:
  assumes "\<forall>x \<in> set polygons. \<exists>rings. x = Arr rings \<and> (\<forall>r \<in> set rings. \<exists>ps. r = Arr ps)"
  shows "flatten_polygons polygons a positions =
           Inr (positions @ concat (map (\<lambda>(i, x). map (prefixed [int i]) (vertex_handles 2 x))
                                     (drop a (enumerate 0 polygons))))"
proof (induction "length polygons - a" arbitrary: a positions)
  case 0
  then have "\<not> a < length polygons" by simp
  then show ?case by (subst flatten_polygons.simps) simp
next
  case (Suc n)
  then have a: "a < length polygons" and n: "n = length polygons - Suc a" by auto
  from assms a obtain rings where rings: "polygons ! a = Arr rings"
    and all: "\<forall>r \<in> set rings. \<exists>ps. r = Arr ps" by (metis nth_mem)
  have el: "element polygons (int a) = Arr rings"
    using a rings by (simp add: element_def js_index_def)
  have dr: "drop a (enumerate 0 polygons) = (a, Arr rings) # drop (a + 1) (enumerate 0 polygons)"
    using a rings by (simp add: Cons_nth_drop_Suc[symmetric] nth_enumerate_eq)
  have "flatten_polygons polygons a positions
          = flatten_polygons polygons (a + 1)
              (positions @ map (prefixed [int a]) (vertex_handles 2 (Arr rings)))"
    by (subst flatten_polygons.simps)
      (simp add: a el flatten_rings_all[OF all] del: vertex_handles.simps)
  then show ?case
    by (simp add: Suc.hyps(1)[OF n] dr del: vertex_handles.simps)
qed

lemma nested_1: "nested_arrays 1 v \<longleftrightarrow> (\<exists>ps. v = Arr ps)"
  by (cases v) (simp_all add: list_all_iff One_nat_def del: One_nat_def[symmetric])

lemma nested_2: "nested_arrays 2 v \<longleftrightarrow> (\<exists>rings. v = Arr rings \<and> (\<forall>r \<in> set rings. \<exists>ps. r = Arr ps))"
  using nested_1 by (cases v) (simp_all add: list_all_iff numeral_2_eq_2)

lemma nested_3:
  "nested_arrays 3 v \<longleftrightarrow>
     (\<exists>polygons. v = Arr polygons
        \<and> (\<forall>x \<in> set polygons. \<exists>rings. x = Arr rings \<and> (\<forall>r \<in> set rings. \<exists>ps. r = Arr ps)))"
  using nested_2 by (cases v) (simp_all add: list_all_iff numeral_3_eq_3 numeral_2_eq_2)

lemma flattenPositions_eq:
  assumes "nesting (gtype g) = Some d" and "nested_arrays d (coordinates g)"
  shows "flattenPositions g = Inr (vertex_handles d (coordinates g))"
proof -
  consider (point) "gtype g = ''Point''" "d = 0"
    | (line) "gtype g = ''MultiPoint'' \<or> gtype g = ''LineString''" "d = 1"
    | (polygon) "gtype g = ''Polygon'' \<or> gtype g = ''MultiLineString''" "d = 2"
    | (multi) "gtype g = ''MultiPolygon''" "d = 3"
    using assms(1) by (auto simp: nesting_def split: if_splits)
  then show ?thesis
  proof cases
    case point
    then show ?thesis by (simp add: flattenPositions_def)
  next
    case line
    from assms(2) obtain ps where "coordinates g = Arr ps"
      unfolding line(2) nested_1 by blast
    then show ?thesis
      using line(1) map_handles_eq[of "[]" ps]
      by (auto simp: flattenPositions_def prefixed_Nil line(2) simp del: vertex_handles.simps)
  next
    case polygon
    from assms(2) obtain rings where c: "coordinates g = Arr rings"
      and all: "\<forall>r \<in> set rings. \<exists>ps. r = Arr ps"
      unfolding polygon(2) nested_2 by blast
    show ?thesis
      using polygon(1) c flatten_rings_all[OF all, of "[]" "[]"]
      by (auto simp: flattenPositions_def prefixed_Nil polygon(2) simp del: vertex_handles.simps)
  next
    case multi
    from assms(2) obtain polygons where c: "coordinates g = Arr polygons"
      and all: "\<forall>x \<in> set polygons. \<exists>rings. x = Arr rings \<and> (\<forall>r \<in> set rings. \<exists>ps. r = Arr ps)"
      unfolding multi(2) nested_3 by blast
    have "vertex_handles 3 (Arr polygons)
            = concat (map (\<lambda>(i, x). map (prefixed [int i]) (vertex_handles 2 x))
                (enumerate 0 polygons))"
      by (simp add: numeral_3_eq_3 numeral_2_eq_2 del: vertex_handles.simps(2)[of 1] vertex_handles.simps(2)[of "Suc 0"])
    then show ?thesis
      using multi(1) c flatten_polygons_eq[OF all, of 0 "[]"]
      by (simp add: flattenPositions_def multi(2) del: vertex_handles.simps)
  qed
qed

lemma in_blocks:
  "h \<in> set (concat (map (\<lambda>(i, x). map (prefixed [int i]) (H x)) (enumerate n xs)))
     \<longleftrightarrow> (\<exists>i h'. n \<le> i \<and> i < length xs + n \<and> h' \<in> set (H (xs ! (i - n)))
            \<and> h = prefixed [int i] h')"
proof -
  have "h \<in> set (concat (map (\<lambda>(i, x). map (prefixed [int i]) (H x)) (enumerate n xs)))
      \<longleftrightarrow> (\<exists>i x. (i, x) \<in> set (enumerate n xs) \<and> h \<in> prefixed [int i] ` set (H x))"
    by fastforce
  also have "\<dots> \<longleftrightarrow> (\<exists>i. n \<le> i \<and> i < length xs + n
                          \<and> h \<in> prefixed [int i] ` set (H (xs ! (i - n))))"
    by (simp add: in_set_enumerate_eq)
  also have "\<dots> \<longleftrightarrow> (\<exists>i h'. n \<le> i \<and> i < length xs + n \<and> h' \<in> set (H (xs ! (i - n)))
            \<and> h = prefixed [int i] h')"
    by blast
  finally show ?thesis .
qed

lemma vertex_handles_sound:
  "h \<in> set (vertex_handles d v) \<Longrightarrow>
     length (positionIndexes h) = d \<and> lookup_path v (positionIndexes h) = Some (position h)"
proof (induction d arbitrary: v h)
  case 0
  then show ?case by auto
next
  case (Suc d)
  from Suc.prems obtain xs where v: "v = Arr xs" by (cases v) auto
  from Suc.prems obtain i h' where i: "i < length xs"
    and h': "h' \<in> set (vertex_handles d (xs ! i))" and h: "h = prefixed [int i] h'"
    unfolding v vertex_handles.simps jsval.case in_blocks by auto
  from Suc.IH[OF h'] i show ?case
    unfolding v h by (simp add: prefixed_def js_index_def)
qed

lemma vertex_handles_complete:
  "length p = d \<Longrightarrow> lookup_path v p = Some x \<Longrightarrow>
     \<lparr>position = x, positionIndexes = p\<rparr> \<in> set (vertex_handles d v)"
proof (induction d arbitrary: v p)
  case 0
  then show ?case by simp
next
  case (Suc d)
  from Suc.prems(1) obtain i rest where p: "p = i # rest" and len: "length rest = d"
    by (cases p) auto
  from Suc.prems(2) obtain xs y where v: "v = Arr xs" and y: "js_index xs i = Some y"
    and l: "lookup_path y rest = Some x"
    unfolding p by (auto split: jsval.splits option.splits)
  from y have i: "0 \<le> i" "nat i < length xs" "xs ! nat i = y"
    by (auto simp: js_index_Some)
  have "\<lparr>position = x, positionIndexes = p\<rparr>
          = prefixed [int (nat i)] \<lparr>position = x, positionIndexes = rest\<rparr>"
    using i(1) by (simp add: prefixed_def p)
  moreover have "\<lparr>position = x, positionIndexes = rest\<rparr> \<in> set (vertex_handles d (xs ! nat i))"
    using Suc.IH[OF len] l i(3) by simp
  ultimately show ?case
    unfolding v vertex_handles.simps jsval.case in_blocks
    using i(2) by (intro exI[of _ "nat i"] exI[of _ "\<lparr>position = x, positionIndexes = rest\<rparr>"]) simp
qed

lemma sorted_blocks:
  assumes "\<And>x. sorted_wrt (<) (map positionIndexes (H x))"
  shows "sorted_wrt (<) (map positionIndexes
           (concat (map (\<lambda>(i, x). map (prefixed [int i]) (H x)) (enumerate n xs))))"
proof (induction xs arbitrary: n)
  case Nil
  show ?case by simp
next
  case (Cons x xs)
  have first: "sorted_wrt (<) (map positionIndexes (map (prefixed [int n]) (H x)))"
    using assms[of x] by (simp add: sorted_wrt_map prefixed_def)
  have between: "a < b"
    if "a \<in> set (map positionIndexes (map (prefixed [int n]) (H x)))"
      and "b \<in> set (map positionIndexes
             (concat (map (\<lambda>(i, x). map (prefixed [int i]) (H x)) (enumerate (Suc n) xs))))"
    for a b
  proof -
    from that(1) obtain p where a: "a = int n # p" by (auto simp: prefixed_def)
    from that(2) obtain h where "b = positionIndexes h"
      and "h \<in> set (concat (map (\<lambda>(i, x). map (prefixed [int i]) (H x)) (enumerate (Suc n) xs)))"
      unfolding set_map by blast
    then obtain m q where b: "b = int m # q" and m: "Suc n \<le> m"
      unfolding in_blocks by (auto simp: prefixed_def)
    show ?thesis unfolding a b using m by simp
  qed
  show ?case
    using first Cons.IH[of "Suc n"] between
    by (simp add: sorted_wrt_append del: map_map)
qed

lemma vertex_handles_sorted: "sorted_wrt (<) (map positionIndexes (vertex_handles d v))"
proof (induction d arbitrary: v)
  case 0
  show ?case by simp
next
  case (Suc d)
  show ?case
  proof (cases v)
    case (Arr xs)
    show ?thesis
      unfolding Arr using sorted_blocks[of "vertex_handles d" 0 xs, OF Suc.IH] by simp
  qed simp_all
qed

lemma length_blocks:
  "length (concat (map (\<lambda>(i, x). map (prefixed [int i]) (H x)) (enumerate n xs)))
     = sum_list (map (\<lambda>x. length (H x)) xs)"
  by (induction xs arbitrary: n) simp_all

lemma length_vertex_handles: "length (vertex_handles d v) = count_vertices d v"
proof (induction d arbitrary: v)
  case 0
  show ?case by simp
next
  case (Suc d)
  show ?case
  proof (cases v)
    case (Arr xs)
    show ?thesis unfolding Arr by (simp add: length_blocks Suc.IH)
  qed simp_all
qed

lemma getEditHandles_eq:
  assumes "js_index (features (getObject e)) fi = Some f"
    and "nesting (gtype (geometry f)) = Some d"
    and "nested_arrays d (coordinates (geometry f))"
  shows "getEditHandles e fi = Inr (vertex_handles d (coordinates (geometry f)))"
  using assms by (simp add: getEditHandles_def flattenPositions_eq)

text \<open>The handles of the example, evaluated.\<close>

lemma two_triangles_handles:
  "getEditHandles two_triangles 0 = Inr
     [\<lparr>position = P 0 0, positionIndexes = [0, 0, 0]\<rparr>,
      \<lparr>position = P 1 0, positionIndexes = [0, 0, 1]\<rparr>,
      \<lparr>position = P 1 1, positionIndexes = [0, 0, 2]\<rparr>,
      \<lparr>position = P 0 0, positionIndexes = [0, 0, 3]\<rparr>,
      \<lparr>position = P 2 2, positionIndexes = [1, 0, 0]\<rparr>,
      \<lparr>position = P 3 2, positionIndexes = [1, 0, 1]\<rparr>,
      \<lparr>position = P 3 3, positionIndexes = [1, 0, 2]\<rparr>,
      \<lparr>position = P 2 2, positionIndexes = [1, 0, 3]\<rparr>]"
  by (simp add: getEditHandles_def two_triangles_def collection_of_def js_index_def
      flattenPositions_def flatten_polygons.simps flatten_rings.simps element_def
      map_handles_def triangle_ring_def)

section \<open>Replacing a position by itself\<close>

lemma replace_terminal_noop:
  assumes "js_index ring k = Some v" and "b \<longrightarrow> ring_closed ring"
  shows "immutablyReplacePosition (Arr ring) (Some [k]) v b = Inr (Arr ring)"
proof -
  from assms(1) have k: "0 \<le> k" "k < int (length ring)" and v: "v = ring ! nat k"
    by (simp_all add: js_index_Some)
  have same: "ring[nat k := v] = ring" by (simp add: v)
  show ?thesis
  proof (cases "b \<and> (k = 0 \<or> k = int (length ring) - 1)")
    case False
    then show ?thesis using replace_terminal_other[OF k, of b v] same by simp
  next
    case True
    then have closed: "element ring 0 = element ring (int (length ring) - 1)"
      using assms(2) by (simp add: ring_closed_def)
    have l: "0 \<le> int (length ring) - 1" "int (length ring) - 1 < int (length ring)"
      "nat (int (length ring) - 1) = length ring - 1" "(0::int) \<le> 0" "0 < int (length ring)"
      using k by auto
    from closed have eq: "ring ! 0 = ring ! (length ring - 1)"
      unfolding element_nth[OF l(1,2)] element_nth[OF l(4,5)] l(3) by simp
    have v0: "v = ring ! 0" and vl: "v = ring ! (length ring - 1)"
      using True v eq l(3) by auto
    have "(ring[nat k := v])[0 := v, length ring - 1 := v] = ring"
      unfolding same using v0 vl by (metis list_update_id)
    then show ?thesis
      using True replace_terminal_endpoint[OF k, of v] by simp
  qed
qed

lemma replace_descend_same:
  assumes "lookup_path c pre = Some (Arr ring)"
    and "immutablyReplacePosition (Arr ring) (Some [k]) p b = Inr (Arr ring)"
  shows "immutablyReplacePosition c (Some (pre @ [k])) p b = Inr c"
  using assms
proof (induction pre arbitrary: c)
  case Nil
  then show ?case by simp
next
  case (Cons i pre)
  from Cons.prems(1) obtain cs x where c: "c = Arr cs" and x: "js_index cs i = Some x"
    and l: "lookup_path x pre = Some (Arr ring)"
    by (auto split: jsval.splits option.splits)
  from x have i: "0 \<le> i" "i < int (length cs)" and xe: "element cs i = x"
    and xn: "cs ! nat i = x"
    by (auto simp: js_index_Some element_nth)
  obtain j rest where pk: "pre @ [k] = j # rest" by (cases pre) auto
  have "immutablyReplacePosition c (Some (i # pre @ [k])) p b = Inr (Arr (cs[nat i := x]))"
    using Cons.IH[OF l Cons.prems(2)] xe i unfolding pk c by (simp add: splice_valid)
  moreover have "cs[nat i := x] = cs" unfolding xn[symmetric] by simp
  ultimately show ?case using c by simp
qed

lemma rings_closed_at_lookup:
  "rings_closed_at (length pre) c \<Longrightarrow> lookup_path c pre = Some (Arr ring) \<Longrightarrow> ring_closed ring"
proof (induction pre arbitrary: c)
  case Nil
  then show ?case by simp
next
  case (Cons i pre)
  from Cons.prems(2) obtain cs x where c: "c = Arr cs" and x: "js_index cs i = Some x"
    and l: "lookup_path x pre = Some (Arr ring)"
    by (auto split: jsval.splits option.splits)
  from x have "x \<in> set cs" by (auto simp: js_index_Some)
  with Cons.prems(1) have "rings_closed_at (length pre) x"
    unfolding c by (simp add: list_all_iff)
  from Cons.IH[OF this l] show ?case .
qed

lemma replace_noop:
  assumes "lookup_path c path = Some v"
    and "b \<longrightarrow> rings_closed_at (length path - 1) c"
  shows "immutablyReplacePosition c (Some path) v b = Inr c"
proof (cases path rule: rev_cases)
  case Nil
  with assms(1) show ?thesis by simp
next
  case (snoc pre k)
  from assms(1) obtain ring where l: "lookup_path c pre = Some (Arr ring)"
    and k: "js_index ring k = Some v"
    unfolding snoc lookup_path_snoc by (auto split: option.splits jsval.splits)
  have "b \<longrightarrow> ring_closed ring"
    using assms(2) rings_closed_at_lookup[OF _ l] snoc by simp
  from replace_descend_same[OF l replace_terminal_noop[OF k this]]
  show ?thesis unfolding snoc .
qed

lemma square_polygon_handles:
  "getEditHandles square_polygon 0 = Inr
     [\<lparr>position = P 0 0, positionIndexes = [0, 0]\<rparr>,
      \<lparr>position = P 1 0, positionIndexes = [0, 1]\<rparr>,
      \<lparr>position = P 1 1, positionIndexes = [0, 2]\<rparr>,
      \<lparr>position = P 0 1, positionIndexes = [0, 3]\<rparr>,
      \<lparr>position = P 0 0, positionIndexes = [0, 4]\<rparr>]"
  by (simp add: getEditHandles_def square_polygon_def collection_of_def js_index_def
      flattenPositions_def flatten_rings.simps element_def map_handles_def square_ring_def)

section \<open>The store only grows\<close>

lemma grows_fail: "grows s (Inl e, s)"
  by (simp add: grows_def)

lemma grows_return: "grows s (Inr v, s)"
  by (simp add: grows_def)

lemma grows_alloc: "grows s (alloc ob s)"
  by (simp add: grows_def alloc_def)

lemma grows_bind:
  assumes "grows s m" and "\<And>v s1. m = (Inr v, s1) \<Longrightarrow> grows s1 (f v s1)"
  shows "grows s (bind m f)"
proof (cases m)
  case (Pair r s1)
  show ?thesis
  proof (cases r)
    case (Inl e)
    with Pair assms(1) show ?thesis by (simp add: bind_def grows_def)
  next
    case (Inr v)
    with Pair assms(2)[of v s1] have "grows s1 (bind m f)" by (simp add: bind_def)
    moreover from Pair assms(1) have "prefix s s1" by (simp add: grows_def)
    ultimately show ?thesis unfolding grows_def by (rule prefix_order.trans[rotated])
  qed
qed

lemma grows_slice_st: "grows s (slice_st c a b s)"
  by (simp add: slice_st_def grows_fail grows_alloc split: option.splits)

lemma grows_slice_from_st: "grows s (slice_from_st c a s)"
  by (simp add: slice_from_st_def grows_fail grows_alloc split: option.splits)

lemma grows_array_literal: "grows s (array_literal front items back s)"
  by (simp add: array_literal_def grows_fail grows_alloc split: option.splits)

lemma grows_spread_geometry: "grows s (spread_geometry g c s)"
  by (simp add: spread_geometry_def grows_fail grows_alloc split: option.splits obj.splits)

lemma grows_spread_feature: "grows s (spread_feature f g s)"
  by (simp add: spread_feature_def grows_fail grows_alloc split: option.splits obj.splits)

lemma grows_spread_collection: "grows s (spread_collection fc fs s)"
  by (simp add: spread_collection_def grows_fail grows_alloc split: option.splits obj.splits)

lemma grows_rebuild: "grows s (rebuild fc fs f g i c s)"
  unfolding rebuild_def
  by (intro grows_bind grows_alloc grows_spread_geometry grows_spread_feature
      grows_slice_st grows_slice_from_st grows_array_literal grows_spread_collection)

text \<open>An assignment to an element of the array allocated last.\<close>

lemma deref_append: "deref s v = Some ob \<Longrightarrow> deref (s @ t) v = Some ob"
  by (auto simp: deref_def nth_append split: val.splits if_splits)

lemma as_array_append: "as_array s v = Some xs \<Longrightarrow> as_array (s @ t) v = Some xs"
  by (auto simp: as_array_def deref_append split: option.splits obj.splits)

lemma as_array_last: "as_array (s @ [Array xs]) (VRef (length s)) = Some xs"
  by (simp add: as_array_def deref_def)

lemma array_set_st_last:
  "array_set_st (VRef (length s)) i v (s @ [Array xs])
     = (Inr v, s @ [Array (array_set_v xs i v)])"
  by (simp add: array_set_st_def as_array_last)

lemma length_st_append: "as_array s c = Some cs \<Longrightarrow> length_st (s @ t) c = int (length cs)"
  by (simp add: length_st_def as_array_append)

lemma replace_st_terminal:
  "immutablyReplacePosition_st c (Some [i]) p b s =
     (case as_array s c of
        None \<Rightarrow> (Inl TypeError, s)
      | Some cs \<Rightarrow>
          (Inr (VRef (length s + 2)),
           s @ [Array (slice cs 0 i), Array (slice_from cs (i + 1)),
                Array (if b \<and> (i = 0 \<or> i = int (length cs) - 1)
                       then array_set_v (array_set_v (slice cs 0 i @ [p] @ slice_from cs (i + 1)) 0 p)
                              (int (length cs) - 1) p
                       else slice cs 0 i @ [p] @ slice_from cs (i + 1))]))"
proof (cases "as_array s c")
  case None
  then show ?thesis by (simp add: slice_st_def bind_def)
next
  case (Some cs)
  let ?s1 = "s @ [Array (slice cs 0 i)]"
  let ?s2 = "?s1 @ [Array (slice_from cs (i + 1))]"
  let ?u = "slice cs 0 i @ [p] @ slice_from cs (i + 1)"
  have 1: "slice_st c 0 i s = (Inr (VRef (length s)), ?s1)"
    by (simp add: slice_st_def Some alloc_def)
  have 2: "slice_from_st c (i + 1) ?s1 = (Inr (VRef (length ?s1)), ?s2)"
    by (simp add: slice_from_st_def as_array_append[OF Some] alloc_def)
  have f: "as_array ?s2 (VRef (length s)) = Some (slice cs 0 i)"
    using as_array_append[OF as_array_last, of s "slice cs 0 i" "[Array (slice_from cs (i + 1))]"]
    by simp
  have k: "as_array ?s2 (VRef (length ?s1)) = Some (slice_from cs (i + 1))"
    by (rule as_array_last)
  have 3: "array_literal (VRef (length s)) [p] (VRef (length ?s1)) ?s2
             = (Inr (VRef (length ?s2)), ?s2 @ [Array ?u])"
    unfolding array_literal_def f k by (simp add: alloc_def)
  have len: "length_st (?s2 @ t) c = int (length cs)" for t
    using length_st_append[OF Some, of "[Array (slice cs 0 i), Array (slice_from cs (i + 1))] @ t"]
    by simp
  have 4: "array_set_st (VRef (length ?s2)) j v (?s2 @ [Array xs])
             = (Inr v, ?s2 @ [Array (array_set_v xs j v)])" for j v xs
    by (rule array_set_st_last)
  show ?thesis
    unfolding immutablyReplacePosition_st.simps 1 2 Some option.case
    apply (simp only: bind_def prod.case sum.case 2 3)
    apply (simp only: len 4 bind_def prod.case sum.case)
    apply auto
    done
qed

lemma element_st_last: "element_st (s @ [Array xs]) (VRef (length s)) i = element_v xs i"
  by (simp add: element_st_def as_array_last)

lemma length_st_last: "length_st (s @ [Array xs]) (VRef (length s)) = int (length xs)"
  by (simp add: length_st_def as_array_last)

lemma remove_st_terminal:
  "immutablyRemovePosition_st c (Some [i]) b s =
     (case as_array s c of
        None \<Rightarrow> (Inl TypeError, s)
      | Some cs \<Rightarrow>
          if b \<and> length cs < 5
          then (Inl (Error
            ''Cannot remove a position from a triangle as it will no longer be a polygon''), s)
          else
          (Inr (VRef (length s + 2)),
           s @ [Array (slice cs 0 i), Array (slice_from cs (i + 1)),
                Array (let u = slice cs 0 i @ slice_from cs (i + 1)
                       in if b \<and> (i = 0 \<or> i = int (length cs) - 1)
                          then (if i = 0
                                then array_set_v u (int (length u) - 1) (element_v u 0)
                                else array_set_v u 0 (element_v u (int (length u) - 1)))
                          else u)]))"
proof (cases "as_array s c")
  case None
  then show ?thesis by simp
next
  case (Some cs)
  let ?s1 = "s @ [Array (slice cs 0 i)]"
  let ?s2 = "?s1 @ [Array (slice_from cs (i + 1))]"
  let ?u = "slice cs 0 i @ slice_from cs (i + 1)"
  have 1: "slice_st c 0 i s = (Inr (VRef (length s)), ?s1)"
    by (simp add: slice_st_def Some alloc_def)
  have 2: "slice_from_st c (i + 1) ?s1 = (Inr (VRef (length ?s1)), ?s2)"
    by (simp add: slice_from_st_def as_array_append[OF Some] alloc_def)
  have f: "as_array ?s2 (VRef (length s)) = Some (slice cs 0 i)"
    using as_array_append[OF as_array_last, of s "slice cs 0 i" "[Array (slice_from cs (i + 1))]"]
    by simp
  have k: "as_array ?s2 (VRef (length ?s1)) = Some (slice_from cs (i + 1))"
    by (rule as_array_last)
  have 3: "array_literal (VRef (length s)) [] (VRef (length ?s1)) ?s2
             = (Inr (VRef (length ?s2)), ?s2 @ [Array ?u])"
    unfolding array_literal_def f k by (simp add: alloc_def)
  have len: "length_st (?s2 @ t) c = int (length cs)" for t
    using length_st_append[OF Some, of "[Array (slice cs 0 i), Array (slice_from cs (i + 1))] @ t"]
    by simp
  have 4: "array_set_st (VRef (length ?s2)) j v (?s2 @ [Array xs])
             = (Inr v, ?s2 @ [Array (array_set_v xs j v)])" for j v xs
    by (rule array_set_st_last)
  have 5: "element_st (?s2 @ [Array xs]) (VRef (length ?s2)) j = element_v xs j" for xs j
    by (rule element_st_last)
  have 6: "length_st (?s2 @ [Array xs]) (VRef (length ?s2)) = int (length xs)" for xs
    by (rule length_st_last)
  show ?thesis
  proof (cases "b \<and> length cs < 5")
    case True
    then show ?thesis by (simp add: Some)
  next
    case False
    have "immutablyRemovePosition_st c (Some [i]) b s =
            bind (slice_st c 0 i s) (\<lambda>front s.
            bind (slice_from_st c (i + 1) s) (\<lambda>back s.
            bind (array_literal front [] back s) (\<lambda>updated s.
              if b \<and> (i = 0 \<or> i = length_st s c - 1)
              then (if i = 0
                    then bind (array_set_st updated (length_st s updated - 1)
                                 (element_st s updated 0) s) (\<lambda>_ s. (Inr updated, s))
                    else if i = length_st s c - 1
                    then bind (array_set_st updated 0
                                 (element_st s updated (length_st s updated - 1)) s)
                           (\<lambda>_ s. (Inr updated, s))
                    else (Inr updated, s))
              else (Inr updated, s))))"
      unfolding immutablyRemovePosition_st.simps Some option.case if_not_P[OF False] ..
    also have "\<dots> = (Inr (VRef (length s + 2)),
           s @ [Array (slice cs 0 i), Array (slice_from cs (i + 1)),
                Array (let u = ?u
                       in if b \<and> (i = 0 \<or> i = int (length cs) - 1)
                          then (if i = 0
                                then array_set_v u (int (length u) - 1) (element_v u 0)
                                else array_set_v u 0 (element_v u (int (length u) - 1)))
                          else u)])"
      unfolding 1
      apply (simp only: bind_def prod.case sum.case 2 3)
      apply (simp only: len 4 5 6 bind_def prod.case sum.case Let_def)
      apply auto
      done
    finally show ?thesis unfolding Some option.case if_not_P[OF False] .
  qed
qed

lemma grows_immutablyReplacePosition_st:
  "grows s (immutablyReplacePosition_st c indexes p b s)"
proof (induction c indexes p b s rule: immutablyReplacePosition_st.induct)
  case (1 coords updatedPosition isPolygonal s)
  show ?case by (simp add: grows_return)
next
  case (2 coords updatedPosition isPolygonal s)
  show ?case by (simp add: grows_return)
next
  case (3 coords i updatedPosition isPolygonal s)
  show ?case
    unfolding replace_st_terminal by (simp add: grows_def split: option.splits)
next
  case (4 coords i j rest updatedPosition isPolygonal s)
  show ?case
    unfolding immutablyReplacePosition_st.simps
    by (intro grows_bind grows_slice_st grows_slice_from_st grows_array_literal "4.IH")
qed

lemma grows_immutablyRemovePosition_st:
  "grows s (immutablyRemovePosition_st c indexes b s)"
proof (induction c indexes b s rule: immutablyRemovePosition_st.induct)
  case (1 coords isPolygonal s)
  show ?case by (simp add: grows_return)
next
  case (2 coords isPolygonal s)
  show ?case by (simp add: grows_fail)
next
  case (3 coords i isPolygonal s)
  show ?case
    unfolding remove_st_terminal by (simp add: grows_def split: option.splits)
next
  case (4 coords i j rest isPolygonal s)
  show ?case
    unfolding immutablyRemovePosition_st.simps
    by (intro grows_bind grows_slice_st grows_slice_from_st grows_array_literal "4.IH")
qed

lemma grows_replacePosition_st: "grows s (replacePosition_st this fi indexes p s)"
proof (cases "locate s this fi")
  case None
  then show ?thesis by (simp add: replacePosition_st_def grows_fail)
next
  case (Some l)
  obtain fc fs f g t c where "l = (fc, fs, f, g, t, c)" by (cases l) auto
  with Some show ?thesis
    by (simp add: replacePosition_st_def grows_bind grows_rebuild
        grows_immutablyReplacePosition_st)
qed

lemma grows_removePosition_st: "grows s (removePosition_st this fi indexes s)"
proof (cases "locate s this fi")
  case None
  then show ?thesis by (simp add: removePosition_st_def grows_fail)
next
  case (Some l)
  obtain fc fs f g t c where "l = (fc, fs, f, g, t, c)" by (cases l) auto
  with Some show ?thesis
    by (simp add: removePosition_st_def grows_bind grows_rebuild
        grows_immutablyRemovePosition_st)
qed

lemma deref_prefix: "prefix s s' \<Longrightarrow> deref s v = Some ob \<Longrightarrow> deref s' v = Some ob"
  by (auto simp: prefix_def deref_append)

lemma as_array_prefix: "prefix s s' \<Longrightarrow> as_array s v = Some xs \<Longrightarrow> as_array s' v = Some xs"
  by (auto simp: prefix_def as_array_append)

lemma repr_prefix: "prefix s s' \<Longrightarrow> repr s v j \<Longrightarrow> repr s' v j"
proof (induction j arbitrary: v)
  case Undefined
  then show ?case by simp
next
  case (Num n)
  then show ?case by simp
next
  case (Arr js)
  from Arr.prems(2) obtain vs where vs: "as_array s v = Some vs"
    and all: "list_all2 (repr s) vs js"
    by (auto split: option.splits)
  have "list_all2 (repr s') vs js"
    using all
  proof (rule list.rel_mono_strong)
    fix w x
    assume "w \<in> set vs" and "x \<in> set js" and "repr s w x"
    then show "repr s' w x" using Arr.IH[OF _ Arr.prems(1)] by blast
  qed
  then show ?case using as_array_prefix[OF Arr.prems(1) vs] by simp
qed

lemma repr_featureE:
  assumes "repr_feature s v f"
  obtains g c where "deref s v = Some (Feature (properties f) g)"
    and "deref s g = Some (Geometry (gtype (geometry f)) c)"
    and "repr s c (coordinates (geometry f))"
proof (cases "deref s v")
  case None
  with assms show ?thesis by (simp add: repr_feature_def)
next
  case (Some ob)
  show ?thesis
  proof (cases ob)
    case (Feature p g)
    note ob = Some[unfolded Feature]
    show ?thesis
    proof (cases "deref s g")
      case None
      with assms ob show ?thesis by (simp add: repr_feature_def)
    next
      case (Some og)
      show ?thesis
      proof (cases og)
        case (Geometry t c)
        with assms ob Some that show ?thesis by (simp add: repr_feature_def)
      qed (use assms ob Some in \<open>simp_all add: repr_feature_def\<close>)
    qed
  qed (use assms Some in \<open>simp_all add: repr_feature_def\<close>)
qed

lemma repr_featureI:
  assumes "deref s v = Some (Feature (properties f) g)"
    and "deref s g = Some (Geometry (gtype (geometry f)) c)"
    and "repr s c (coordinates (geometry f))"
  shows "repr_feature s v f"
  using assms by (simp add: repr_feature_def)

lemma repr_feature_prefix:
  assumes "prefix s s'" and "repr_feature s v f"
  shows "repr_feature s' v f"
proof -
  from assms(2) obtain g c where d: "deref s v = Some (Feature (properties f) g)"
    and dg: "deref s g = Some (Geometry (gtype (geometry f)) c)"
    and r: "repr s c (coordinates (geometry f))"
    by (rule repr_featureE)
  show ?thesis
    using deref_prefix[OF assms(1) d] deref_prefix[OF assms(1) dg] repr_prefix[OF assms(1) r]
    by (rule repr_featureI)
qed

lemma repr_collectionE:
  assumes "repr_collection s v fc"
  obtains fs vs where "deref s v = Some (Collection (others fc) fs)"
    and "as_array s fs = Some vs"
    and "list_all2 (repr_feature s) vs (features fc)"
proof (cases "deref s v")
  case None
  with assms show ?thesis by (simp add: repr_collection_def)
next
  case (Some ob)
  show ?thesis
  proof (cases ob)
    case (Collection q fs)
    note ob = Some[unfolded Collection]
    show ?thesis
    proof (cases "as_array s fs")
      case None
      with assms ob show ?thesis by (simp add: repr_collection_def)
    next
      case (Some vs)
      with assms ob that show ?thesis by (simp add: repr_collection_def)
    qed
  qed (use assms Some in \<open>simp_all add: repr_collection_def\<close>)
qed

lemma repr_collectionI:
  assumes "deref s v = Some (Collection (others fc) fs)"
    and "as_array s fs = Some vs"
    and "list_all2 (repr_feature s) vs (features fc)"
  shows "repr_collection s v fc"
  using assms by (simp add: repr_collection_def)

lemma repr_collection_prefix:
  assumes "prefix s s'" and "repr_collection s v fc"
  shows "repr_collection s' v fc"
proof -
  from assms(2) obtain fs vs where d: "deref s v = Some (Collection (others fc) fs)"
    and a: "as_array s fs = Some vs"
    and all: "list_all2 (repr_feature s) vs (features fc)"
    by (rule repr_collectionE)
  have "list_all2 (repr_feature s') vs (features fc)"
    using all
  proof (rule list_all2_mono)
    fix w f
    assume "repr_feature s w f"
    then show "repr_feature s' w f" by (rule repr_feature_prefix[OF assms(1)])
  qed
  with deref_prefix[OF assms(1) d] as_array_prefix[OF assms(1) a]
  show ?thesis by (rule repr_collectionI)
qed

lemma repr_editorE:
  assumes "repr_editor s this e"
  obtains fc where "deref s this = Some (Editor fc)" and "repr_collection s fc (getObject e)"
proof (cases "deref s this")
  case None
  with assms show ?thesis by (simp add: repr_editor_def)
next
  case (Some ob)
  show ?thesis
  proof (cases ob)
    case (Editor fc)
    with assms Some that show ?thesis by (simp add: repr_editor_def)
  qed (use assms Some in \<open>simp_all add: repr_editor_def\<close>)
qed

lemma repr_editorI:
  assumes "deref s this = Some (Editor fc)" and "repr_collection s fc (getObject e)"
  shows "repr_editor s this e"
  using assms by (simp add: repr_editor_def)

lemma repr_editor_prefix:
  assumes "prefix s s'" and "repr_editor s this e"
  shows "repr_editor s' this e"
proof -
  from assms(2) obtain fc where d: "deref s this = Some (Editor fc)"
    and c: "repr_collection s fc (getObject e)"
    by (rule repr_editorE)
  from deref_prefix[OF assms(1) d] repr_collection_prefix[OF assms(1) c]
  show ?thesis by (rule repr_editorI)
qed

lemma getObject_st_prefix:
  assumes "prefix s s'" and "deref s this = Some (Editor fc)"
  shows "getObject_st s' this = getObject_st s this"
  using deref_prefix[OF assms] assms(2) by (simp add: getObject_st_def)

lemma bind_Inr:
  "bind m f = (Inr v, s') \<longleftrightarrow> (\<exists>w s1. m = (Inr w, s1) \<and> f w s1 = (Inr v, s'))"
proof (cases m)
  case (Pair r s1)
  then show ?thesis by (cases r) (simp_all add: bind_def)
qed

lemma bind_InrE:
  assumes "bind m f = (Inr v, s')"
  obtains w s1 where "m = (Inr w, s1)" and "f w s1 = (Inr v, s')"
  using assms unfolding bind_Inr by blast

lemma rebuild_steps:
  assumes "rebuild fc fs f g i c s = (Inr this', s')"
  obtains g' s1 uf s2 fr s3 bk s4 fs' s5 ufc s6 where
    "spread_geometry g c s = (Inr g', s1)"
    "spread_feature f g' s1 = (Inr uf, s2)"
    "slice_st fs 0 i s2 = (Inr fr, s3)"
    "slice_from_st fs (i + 1) s3 = (Inr bk, s4)"
    "array_literal fr [uf] bk s4 = (Inr fs', s5)"
    "spread_collection fc fs' s5 = (Inr ufc, s6)"
    "alloc (Editor ufc) s6 = (Inr this', s')"
  using assms unfolding rebuild_def
  by (elim bind_InrE) (rule that)

lemma grows_prefix: "grows s m \<Longrightarrow> m = (r, s') \<Longrightarrow> prefix s s'"
  by (simp add: grows_def)

lemma rebuild_new_editor:
  assumes "rebuild fc fs f g i c s = (Inr this', s')"
  shows "\<exists>a. this' = VRef (Suc a) \<and> length s \<le> a \<and> length s' = Suc (Suc a)
           \<and> deref s' this' = Some (Editor (VRef a))
           \<and> (\<exists>q fs'. deref s' (VRef a) = Some (Collection q fs'))"
proof -
  from assms obtain g' s1 uf s2 fr s3 bk s4 fs' s5 ufc s6 where
    1: "spread_geometry g c s = (Inr g', s1)"
    and 2: "spread_feature f g' s1 = (Inr uf, s2)"
    and 3: "slice_st fs 0 i s2 = (Inr fr, s3)"
    and 4: "slice_from_st fs (i + 1) s3 = (Inr bk, s4)"
    and 5: "array_literal fr [uf] bk s4 = (Inr fs', s5)"
    and 6: "spread_collection fc fs' s5 = (Inr ufc, s6)"
    and 7: "alloc (Editor ufc) s6 = (Inr this', s')"
    by (rule rebuild_steps)
  have "prefix s s1" by (rule grows_prefix[OF grows_spread_geometry 1])
  also have "prefix s1 s2" by (rule grows_prefix[OF grows_spread_feature 2])
  also have "prefix s2 s3" by (rule grows_prefix[OF grows_slice_st 3])
  also have "prefix s3 s4" by (rule grows_prefix[OF grows_slice_from_st 4])
  also have "prefix s4 s5" by (rule grows_prefix[OF grows_array_literal 5])
  finally have "length s \<le> length s5" by (rule prefix_length_le)
  moreover from 6 obtain q where u: "ufc = VRef (length s5)" and s6: "s6 = s5 @ [Collection q fs']"
    unfolding spread_collection_def alloc_def by (auto split: option.splits obj.splits)
  moreover from 7 have t: "this' = VRef (length s6)" and s': "s' = s6 @ [Editor ufc]"
    unfolding alloc_def by auto
  ultimately show ?thesis
    by (auto simp: deref_def nth_append)
qed

lemma rebuild_is_new_editor:
  assumes "rebuild fc fs f g i c s1 = (Inr this', s')" and "prefix s s1"
  shows "is_new_editor s s' this'"
proof -
  from rebuild_new_editor[OF assms(1)] obtain a q fs' where
    t: "this' = VRef (Suc a)" and a: "length s1 \<le> a"
    and d: "deref s' this' = Some (Editor (VRef a))"
    and c: "deref s' (VRef a) = Some (Collection q fs')"
    by blast
  from assms(2) have "length s \<le> length s1" by (rule prefix_length_le)
  with a have "length s \<le> a" by simp
  then show ?thesis using d c unfolding t by (simp add: is_new_editor_def)
qed

lemma bind_rebuild_is_new_editor:
  assumes "grows s m" and "bind m (rebuild fc fs f g i) = (Inr this', s')"
  shows "is_new_editor s s' this'"
proof -
  from assms(2) obtain c s1 where m: "m = (Inr c, s1)"
    and r: "rebuild fc fs f g i c s1 = (Inr this', s')"
    by (rule bind_InrE)
  from grows_prefix[OF assms(1) m] have "prefix s s1" .
  with r show ?thesis by (rule rebuild_is_new_editor)
qed

lemma replacePosition_st_new_editor:
  assumes "replacePosition_st this fi indexes p s = (Inr this', s')"
  shows "is_new_editor s s' this'"
proof (cases "locate s this fi")
  case None
  with assms show ?thesis by (simp add: replacePosition_st_def)
next
  case (Some l)
  obtain fc fs f g t c where "l = (fc, fs, f, g, t, c)" by (cases l) auto
  with Some assms have
    "bind (immutablyReplacePosition_st c indexes p (t = ''Polygon'' \<or> t = ''MultiPolygon'') s)
       (rebuild fc fs f g fi) = (Inr this', s')"
    by (simp add: replacePosition_st_def)
  with grows_immutablyReplacePosition_st show ?thesis by (rule bind_rebuild_is_new_editor)
qed

lemma removePosition_st_new_editor:
  assumes "removePosition_st this fi indexes s = (Inr this', s')"
  shows "is_new_editor s s' this'"
proof (cases "locate s this fi")
  case None
  with assms show ?thesis by (simp add: removePosition_st_def)
next
  case (Some l)
  obtain fc fs f g t c where "l = (fc, fs, f, g, t, c)" by (cases l) auto
  with Some assms have
    "bind (immutablyRemovePosition_st c indexes (t = ''Polygon'' \<or> t = ''MultiPolygon'') s)
       (rebuild fc fs f g fi) = (Inr this', s')"
    by (simp add: removePosition_st_def)
  with grows_immutablyRemovePosition_st show ?thesis by (rule bind_rebuild_is_new_editor)
qed

lemma leaves_untouchedI:
  assumes "repr_editor s this e" and "grows s m"
    and "\<And>this' s'. m = (Inr this', s') \<Longrightarrow> is_new_editor s s' this'"
  shows "leaves_untouched s this e m"
proof -
  obtain r s' where m: "m = (r, s')" by (cases m)
  from grows_prefix[OF assms(2) m] have p: "prefix s s'" .
  from assms(1) obtain fc where d: "deref s this = Some (Editor fc)"
    by (rule repr_editorE)
  have g: "getObject_st s' this = getObject_st s this"
    using p d by (rule getObject_st_prefix)
  have r: "repr_editor s' this e"
    using p assms(1) by (rule repr_editor_prefix)
  have n: "case r of Inl err \<Rightarrow> True | Inr this' \<Rightarrow> is_new_editor s s' this'"
    using assms(3)[of _ s'] m by (cases r) simp_all
  show ?thesis
    unfolding leaves_untouched_def m using p g r n by (cases r) simp_all
qed

lemma triangle_store_repr: "repr_editor triangle_store (VRef 9) triangle_polygon"
  by (simp add: repr_editor_def repr_collection_def repr_feature_def deref_def as_array_def
      triangle_store_def triangle_polygon_def collection_of_def triangle_ring_def P_def)

lemma triangle_store_locate:
  "locate triangle_store (VRef 9) 0
     = Some (VRef 8, VRef 7, VRef 6, VRef 5, ''Polygon'', VRef 4)"
  by (simp add: locate_def deref_def triangle_store_def element_st_def element_v_def
      as_array_def js_index_def)

text \<open>The store after the replacement of the example, evaluated.\<close>

lemma triangle_store_replace:
  "replacePosition_st (VRef 9) 0 (Some [0, 0]) (VRef 10) triangle_store =
     (Inr (VRef 23),
      triangle_store @
      [Array [], Array [], Array [VRef 1, VRef 2, VRef 0],
       Array [VRef 10, VRef 1, VRef 2, VRef 10], Array [], Array [VRef 14],
       Geometry ''Polygon'' (VRef 16), Feature () (VRef 17), Array [], Array [],
       Array [VRef 18], Collection () (VRef 21), Editor (VRef 22)])"
  by code_simp

section \<open>The store model computes what the value model computes\<close>

lemma list_all2_slice:
  assumes "list_all2 R xs ys"
  shows "list_all2 R (slice xs a b) (slice ys a b)"
proof -
  have "length xs = length ys" using assms by (rule list_all2_lengthD)
  then show ?thesis
    unfolding slice_def Let_def using assms by (simp add: list_all2_takeI list_all2_dropI)
qed

lemma list_all2_slice_from:
  assumes "list_all2 R xs ys"
  shows "list_all2 R (slice_from xs a) (slice_from ys a)"
proof -
  have "length xs = length ys" using assms by (rule list_all2_lengthD)
  then show ?thesis
    unfolding slice_from_def using assms by (simp add: list_all2_dropI)
qed

lemma list_all2_array_set:
  assumes "list_all2 R xs ys" and "R v w" and "R VUndefined Undefined"
  shows "list_all2 R (array_set_v xs i v) (array_set ys i w)"
proof -
  have len: "length xs = length ys" using assms(1) by (rule list_all2_lengthD)
  have "list_all2 R (replicate n VUndefined) (replicate n Undefined)" for n
    using assms(3) by (induction n) simp_all
  then show ?thesis
    unfolding array_set_v_def array_set_def len
    using assms(1,2) by (auto intro!: list_all2_appendI list_all2_update_cong)
qed

lemma list_all2_element:
  assumes "list_all2 R xs ys" and "R VUndefined Undefined"
  shows "R (element_v xs i) (element ys i)"
proof -
  have len: "length xs = length ys" using assms(1) by (rule list_all2_lengthD)
  show ?thesis
  proof (cases "0 \<le> i \<and> i < int (length xs)")
    case True
    then have "nat i < length xs" by auto
    with assms(1) have "R (xs ! nat i) (ys ! nat i)" by (rule list_all2_nthD)
    with True len show ?thesis by (simp add: element_v_def element_def js_index_def)
  next
    case False
    with len assms(2) show ?thesis by (auto simp: element_v_def element_def js_index_def)
  qed
qed

lemma repr_Undefined: "repr s VUndefined Undefined"
  by simp

lemma repr_array:
  assumes "repr s c jc" and "as_array s c = Some cs"
  obtains js where "jc = Arr js" and "list_all2 (repr s) cs js"
  using assms by (cases jc) (auto simp: as_array_def deref_def)

lemma repr_no_array:
  assumes "repr s c jc" and "as_array s c = None"
  shows "\<forall>js. jc \<noteq> Arr js"
  using assms by (cases jc) auto

lemma list_all2_repr_prefix:
  assumes "prefix s s'" and "list_all2 (repr s) vs js"
  shows "list_all2 (repr s') vs js"
  using assms(2)
proof (rule list_all2_mono)
  fix w x
  assume "repr s w x"
  with assms(1) show "repr s' w x" by (rule repr_prefix)
qed

lemma replace_terminal_sim:
  assumes "repr s c jc" and "repr s p jp"
  shows "sim repr (immutablyReplacePosition_st c (Some [i]) p b s)
           (immutablyReplacePosition jc (Some [i]) jp b)"
proof (cases "as_array s c")
  case None
  from repr_no_array[OF assms(1) None] have "immutablyReplacePosition jc (Some [i]) jp b = Inl TypeError"
    by (cases jc) simp_all
  then show ?thesis unfolding replace_st_terminal None option.case sim_def by simp
next
  case (Some cs)
  from assms(1) Some obtain js where jc: "jc = Arr js" and all: "list_all2 (repr s) cs js"
    by (rule repr_array)
  have len: "length cs = length js" using all by (rule list_all2_lengthD)
  let ?s' = "s @ [Array (slice cs 0 i), Array (slice_from cs (i + 1))]"
  have pre: "prefix s (?s' @ t)" for t by simp
  have all': "list_all2 (repr (?s' @ t)) cs js" for t
    using pre all by (rule list_all2_repr_prefix)
  have p': "repr (?s' @ t) p jp" for t
    using pre assms(2) by (rule repr_prefix)
  have u: "list_all2 (repr (?s' @ t)) (slice cs 0 i @ [p] @ slice_from cs (i + 1))
             (slice js 0 i @ [jp] @ slice_from js (i + 1))" for t
    using list_all2_slice[OF all'] list_all2_slice_from[OF all'] p'
    by (intro list_all2_appendI) simp_all
  have u2: "list_all2 (repr (?s' @ t))
              (array_set_v (array_set_v (slice cs 0 i @ [p] @ slice_from cs (i + 1)) 0 p)
                 (int (length cs) - 1) p)
              (array_set (array_set (slice js 0 i @ [jp] @ slice_from js (i + 1)) 0 jp)
                 (int (length js) - 1) jp)" for t
    unfolding len
    by (intro list_all2_array_set u p' repr_Undefined)
  have last: "as_array (?s' @ [Array xs]) (VRef (length s + 2)) = Some xs" for xs
    using as_array_last[of ?s' xs] by simp
  show ?thesis
  proof (cases "b \<and> (i = 0 \<or> i = int (length cs) - 1)")
    case True
    let ?u = "array_set_v (array_set_v (slice cs 0 i @ [p] @ slice_from cs (i + 1)) 0 p)
                 (int (length cs) - 1) p"
    let ?ju = "array_set (array_set (slice js 0 i @ [jp] @ slice_from js (i + 1)) 0 jp)
                 (int (length js) - 1) jp"
    have st: "immutablyReplacePosition_st c (Some [i]) p b s
                = (Inr (VRef (length s + 2)), ?s' @ [Array ?u])"
      unfolding replace_st_terminal Some option.case if_P[OF True] by simp
    have "b \<and> (i = 0 \<or> i = int (length js) - 1)" using True len by simp
    then have vl: "immutablyReplacePosition jc (Some [i]) jp b = Inr (Arr ?ju)"
      unfolding jc immutablyReplacePosition.simps jsval.case Let_def by (rule if_P)
    have "repr (?s' @ [Array ?u]) (VRef (length s + 2)) (Arr ?ju)"
      using u2[of "[Array ?u]"] last[of ?u] by simp
    then show ?thesis unfolding st vl sim_def by simp
  next
    case False
    let ?u = "slice cs 0 i @ [p] @ slice_from cs (i + 1)"
    let ?ju = "slice js 0 i @ [jp] @ slice_from js (i + 1)"
    have st: "immutablyReplacePosition_st c (Some [i]) p b s
                = (Inr (VRef (length s + 2)), ?s' @ [Array ?u])"
      unfolding replace_st_terminal Some option.case if_not_P[OF False] by simp
    have "\<not> (b \<and> (i = 0 \<or> i = int (length js) - 1))" using False len by simp
    then have vl: "immutablyReplacePosition jc (Some [i]) jp b = Inr (Arr ?ju)"
      unfolding jc immutablyReplacePosition.simps jsval.case Let_def by (rule if_not_P)
    have "repr (?s' @ [Array ?u]) (VRef (length s + 2)) (Arr ?ju)"
      using u[of "[Array ?u]"] last[of ?u] by simp
    then show ?thesis unfolding st vl sim_def by simp
  qed
qed

lemma sim_fail: "sim R (Inl e, s) (Inl e)"
  by (simp add: sim_def)

lemma sim_return: "R s v j \<Longrightarrow> sim R (Inr v, s) (Inr j)"
  by (simp add: sim_def)

lemma descend_sim:
  assumes c: "repr s c jc"
    and inner: "\<And>s1 x jx. prefix s s1 \<Longrightarrow> repr s1 x jx \<Longrightarrow> sim repr (inner x s1) (jinner jx)"
    and grow: "\<And>x s1. grows s1 (inner x s1)"
  shows "sim repr
           (bind (slice_st c 0 i s) (\<lambda>front s.
            bind (inner (element_st s c i) s) (\<lambda>inn s.
            bind (slice_from_st c (i + 1) s) (\<lambda>back s.
              array_literal front [inn] back s))))
           (case jc of
              Arr cs \<Rightarrow>
                (case jinner (element cs i) of
                   Inl e \<Rightarrow> Inl e
                 | Inr inn \<Rightarrow> Inr (Arr (slice cs 0 i @ [inn] @ slice_from cs (i + 1))))
            | _ \<Rightarrow> Inl TypeError)"
proof (cases "as_array s c")
  case None
  have "(case jc of
              Arr cs \<Rightarrow>
                (case jinner (element cs i) of
                   Inl e \<Rightarrow> Inl e
                 | Inr inn \<Rightarrow> Inr (Arr (slice cs 0 i @ [inn] @ slice_from cs (i + 1))))
            | _ \<Rightarrow> Inl TypeError) = Inl TypeError"
    using repr_no_array[OF c None] by (cases jc) simp_all
  moreover have "slice_st c 0 i s = (Inl TypeError, s)"
    by (simp add: slice_st_def None)
  ultimately show ?thesis by (simp add: bind_def sim_fail)
next
  case (Some cs)
  from c Some obtain js where jc: "jc = Arr js" and all: "list_all2 (repr s) cs js"
    by (rule repr_array)
  let ?s1 = "s @ [Array (slice cs 0 i)]"
  have p1: "prefix s ?s1" by simp
  have 1: "slice_st c 0 i s = (Inr (VRef (length s)), ?s1)"
    by (simp add: slice_st_def Some alloc_def)
  have el: "element_st ?s1 c i = element_v cs i"
    by (simp add: element_st_def as_array_append[OF Some])
  have "repr ?s1 (element_v cs i) (element js i)"
    using list_all2_repr_prefix[OF p1 all] repr_Undefined by (rule list_all2_element)
  with p1 have s: "sim repr (inner (element_v cs i) ?s1) (jinner (element js i))"
    by (rule inner)
  obtain r2 s2 where m: "inner (element_v cs i) ?s1 = (r2, s2)"
    by (cases "inner (element_v cs i) ?s1")
  have p2: "prefix ?s1 s2" using grow m by (rule grows_prefix)
  show ?thesis
  proof (cases r2)
    case (Inl e)
    with s m have "jinner (element js i) = Inl e" by (simp add: sim_def)
    then show ?thesis
      unfolding 1 jc using Inl m by (simp add: bind_def el sim_fail)
  next
    case (Inr inn)
    with s m obtain jinn where ji: "jinner (element js i) = Inr jinn"
      and ri: "repr s2 inn jinn"
      by (cases "jinner (element js i)") (simp_all add: sim_def)
    let ?s3 = "s2 @ [Array (slice_from cs (i + 1))]"
    let ?u = "slice cs 0 i @ [inn] @ slice_from cs (i + 1)"
    have ps2: "prefix s s2" using p1 p2 by (rule prefix_order.trans)
    have a2: "as_array s2 c = Some cs" using ps2 Some by (rule as_array_prefix)
    have 3: "slice_from_st c (i + 1) s2 = (Inr (VRef (length s2)), ?s3)"
      by (simp add: slice_from_st_def a2 alloc_def)
    have "as_array ?s1 (VRef (length s)) = Some (slice cs 0 i)" by (rule as_array_last)
    with p2 have "as_array s2 (VRef (length s)) = Some (slice cs 0 i)"
      by (rule as_array_prefix)
    then have f: "as_array ?s3 (VRef (length s)) = Some (slice cs 0 i)"
      by (rule as_array_append)
    have k: "as_array ?s3 (VRef (length s2)) = Some (slice_from cs (i + 1))"
      by (rule as_array_last)
    have 4: "array_literal (VRef (length s)) [inn] (VRef (length s2)) ?s3
               = (Inr (VRef (length ?s3)), ?s3 @ [Array ?u])"
      unfolding array_literal_def f k by (simp add: alloc_def)
    have st: "bind (slice_st c 0 i s) (\<lambda>front s.
            bind (inner (element_st s c i) s) (\<lambda>inn s.
            bind (slice_from_st c (i + 1) s) (\<lambda>back s.
              array_literal front [inn] back s)))
          = (Inr (VRef (length ?s3)), ?s3 @ [Array ?u])"
      unfolding 1 by (simp add: bind_def el m Inr 3 4)
    have p24: "prefix s2 (?s3 @ [Array ?u])" by simp
    have p4: "prefix s (?s3 @ [Array ?u])" using ps2 p24 by (rule prefix_order.trans)
    have "list_all2 (repr (?s3 @ [Array ?u])) ?u (slice js 0 i @ [jinn] @ slice_from js (i + 1))"
      using list_all2_slice[OF list_all2_repr_prefix[OF p4 all]]
        list_all2_slice_from[OF list_all2_repr_prefix[OF p4 all]]
        repr_prefix[OF p24 ri]
      by (intro list_all2_appendI) simp_all
    then have "repr (?s3 @ [Array ?u]) (VRef (length ?s3))
                 (Arr (slice js 0 i @ [jinn] @ slice_from js (i + 1)))"
      using as_array_last[of ?s3 ?u] by simp
    then show ?thesis
      unfolding st jc by (simp add: ji sim_def)
  qed
qed

lemma replace_sim_path:
  assumes "repr s c jc" and "repr s p jp"
  shows "sim repr (immutablyReplacePosition_st c (Some path) p b s)
           (immutablyReplacePosition jc (Some path) jp b)"
  using assms
proof (induction path arbitrary: c jc s)
  case Nil
  then show ?case by (simp add: sim_return)
next
  case (Cons i rest)
  show ?case
  proof (cases rest)
    case Nil
    show ?thesis unfolding Nil using Cons.prems by (rule replace_terminal_sim)
  next
    case (Cons j rest')
    have inner: "sim repr (immutablyReplacePosition_st x (Some rest) p b s1)
                   (immutablyReplacePosition jx (Some rest) jp b)"
      if "prefix s s1" and "repr s1 x jx" for s1 x jx
      using that(2) repr_prefix[OF that(1) Cons.prems(2)] by (rule Cons.IH)
    show ?thesis
      unfolding Cons immutablyReplacePosition_st.simps immutablyReplacePosition.simps
      using Cons.prems(1) inner[unfolded Cons] grows_immutablyReplacePosition_st
      by (rule descend_sim)
  qed
qed

lemma replace_sim:
  assumes "repr s c jc" and "indexes = None \<or> repr s p jp"
  shows "sim repr (immutablyReplacePosition_st c indexes p b s)
           (immutablyReplacePosition jc indexes jp b)"
proof (cases indexes)
  case None
  with assms(1) show ?thesis by (simp add: sim_return)
next
  case (Some path)
  with assms(2) have "repr s p jp" by simp
  with assms(1) show ?thesis unfolding Some by (rule replace_sim_path)
qed

lemma remove_terminal_sim:
  assumes "repr s c jc"
  shows "sim repr (immutablyRemovePosition_st c (Some [i]) b s)
           (immutablyRemovePosition jc (Some [i]) b)"
proof (cases "as_array s c")
  case None
  from repr_no_array[OF assms None] have "immutablyRemovePosition jc (Some [i]) b = Inl TypeError"
    by (cases jc) simp_all
  then show ?thesis unfolding remove_st_terminal None option.case sim_def by simp
next
  case (Some cs)
  from assms Some obtain js where jc: "jc = Arr js" and all: "list_all2 (repr s) cs js"
    by (rule repr_array)
  have len: "length cs = length js" using all by (rule list_all2_lengthD)
  show ?thesis
  proof (cases "b \<and> length cs < 5")
    case True
    then have "b \<and> length js < 5" using len by simp
    then have "immutablyRemovePosition jc (Some [i]) b = Inl (Error
            ''Cannot remove a position from a triangle as it will no longer be a polygon'')"
      unfolding jc by simp
    then show ?thesis
      unfolding remove_st_terminal Some option.case if_P[OF True] sim_def by simp
  next
    case False
    then have nj: "\<not> (b \<and> length js < 5)" using len by simp
    define u where "u = slice cs 0 i @ slice_from cs (i + 1)"
    define ju where "ju = slice js 0 i @ slice_from js (i + 1)"
    define U where "U = (if b \<and> (i = 0 \<or> i = int (length cs) - 1)
                          then (if i = 0
                                then array_set_v u (int (length u) - 1) (element_v u 0)
                                else array_set_v u 0 (element_v u (int (length u) - 1)))
                          else u)"
    define JU where "JU = (if b \<and> (i = 0 \<or> i = int (length js) - 1)
                          then (if i = 0
                                then array_set ju (int (length ju) - 1) (element ju 0)
                                else array_set ju 0 (element ju (int (length ju) - 1)))
                          else ju)"
    let ?s' = "s @ [Array (slice cs 0 i), Array (slice_from cs (i + 1))]"
    let ?S = "?s' @ [Array U]"
    have st: "immutablyRemovePosition_st c (Some [i]) b s = (Inr (VRef (length s + 2)), ?S)"
      unfolding remove_st_terminal Some option.case if_not_P[OF False] Let_def U_def u_def
      by simp
    have "immutablyRemovePosition jc (Some [i]) b
            = (let updated = slice js 0 i @ slice_from js (i + 1)
             in if b \<and> (i = 0 \<or> i = int (length js) - 1)
                then (if i = 0
                      then Inr (Arr (array_set updated (int (length updated) - 1)
                                       (element updated 0)))
                      else if i = int (length js) - 1
                      then Inr (Arr (array_set updated 0
                                       (element updated (int (length updated) - 1))))
                      else Inr (Arr updated))
                else Inr (Arr updated))"
      unfolding jc immutablyRemovePosition.simps jsval.case if_not_P[OF nj] ..
    also have "\<dots> = Inr (Arr JU)"
    proof (cases "b \<and> (i = 0 \<or> i = int (length js) - 1)")
      case True
      show ?thesis
      proof (cases "i = 0")
        case True
        with \<open>b \<and> (i = 0 \<or> i = int (length js) - 1)\<close> show ?thesis
          by (simp add: JU_def ju_def Let_def)
      next
        case False
        with True have "i = int (length js) - 1" by simp
        with True False show ?thesis by (simp add: JU_def ju_def Let_def)
      qed
    next
      case False
      show ?thesis unfolding JU_def ju_def Let_def if_not_P[OF False] ..
    qed
    finally have vl: "immutablyRemovePosition jc (Some [i]) b = Inr (Arr JU)" .
    have main: "list_all2 (repr T) U JU" if pre: "prefix s T" for T
    proof -
      have all': "list_all2 (repr T) cs js"
        using pre all by (rule list_all2_repr_prefix)
      have uju: "list_all2 (repr T) u ju"
        unfolding u_def ju_def
        using list_all2_slice[OF all'] list_all2_slice_from[OF all']
        by (rule list_all2_appendI)
      then have lu: "length u = length ju" by (rule list_all2_lengthD)
      have el: "repr T (element_v u k) (element ju k)" for k
        using uju repr_Undefined by (rule list_all2_element)
      have upd: "list_all2 (repr T) (array_set_v u j (element_v u k))
                   (array_set ju j (element ju k))" for j k
        using uju el repr_Undefined by (rule list_all2_array_set)
      show ?thesis
      proof (cases "b \<and> (i = 0 \<or> i = int (length cs) - 1)")
        case True
        then have "b \<and> (i = 0 \<or> i = int (length js) - 1)" using len by simp
        then show ?thesis
          unfolding U_def JU_def if_P[OF True]
            if_P[OF \<open>b \<and> (i = 0 \<or> i = int (length js) - 1)\<close>] lu
          using upd by (cases "i = 0") simp_all
      next
        case False
        then have nj: "\<not> (b \<and> (i = 0 \<or> i = int (length js) - 1))" using len by simp
        show ?thesis
          unfolding U_def JU_def if_not_P[OF False] if_not_P[OF nj]
          by (rule uju)
      qed
    qed
    have "prefix s ?S" by simp
    then have "list_all2 (repr ?S) U JU" by (rule main)
    moreover have "as_array ?S (VRef (length s + 2)) = Some U"
      using as_array_last[of ?s' U] by simp
    ultimately have "repr ?S (VRef (length s + 2)) (Arr JU)" by simp
    then show ?thesis unfolding st vl sim_def by simp
  qed
qed

lemma remove_sim_path:
  assumes "repr s c jc"
  shows "sim repr (immutablyRemovePosition_st c (Some path) b s)
           (immutablyRemovePosition jc (Some path) b)"
  using assms
proof (induction path arbitrary: c jc s)
  case Nil
  then show ?case by (simp add: sim_fail)
next
  case (Cons i rest)
  show ?case
  proof (cases rest)
    case Nil
    show ?thesis unfolding Nil using Cons.prems by (rule remove_terminal_sim)
  next
    case (Cons j rest')
    have inner: "sim repr (immutablyRemovePosition_st x (Some rest) b s1)
                   (immutablyRemovePosition jx (Some rest) b)"
      if "prefix s s1" and "repr s1 x jx" for s1 x jx
      using that(2) by (rule Cons.IH)
    show ?thesis
      unfolding Cons immutablyRemovePosition_st.simps immutablyRemovePosition.simps
      using Cons.prems(1) inner[unfolded Cons] grows_immutablyRemovePosition_st
      by (rule descend_sim)
  qed
qed

lemma remove_sim:
  assumes "repr s c jc"
  shows "sim repr (immutablyRemovePosition_st c indexes b s)
           (immutablyRemovePosition jc indexes b)"
proof (cases indexes)
  case None
  with assms show ?thesis by (simp add: sim_return)
next
  case (Some path)
  show ?thesis unfolding Some using assms by (rule remove_sim_path)
qed

lemma locate_cases:
  assumes "repr_editor s this e"
  obtains (none) "js_index (features (getObject e)) fi = None" and "locate s this fi = None"
  | (some) ef fc fs vs f g c where
      "js_index (features (getObject e)) fi = Some ef"
      "locate s this fi = Some (fc, fs, f, g, gtype (geometry ef), c)"
      "deref s fc = Some (Collection (others (getObject e)) fs)"
      "as_array s fs = Some vs"
      "list_all2 (repr_feature s) vs (features (getObject e))"
      "deref s f = Some (Feature (properties ef) g)"
      "deref s g = Some (Geometry (gtype (geometry ef)) c)"
      "repr s c (coordinates (geometry ef))"
      "deref s this = Some (Editor fc)"
proof -
  from assms obtain fc where d: "deref s this = Some (Editor fc)"
    and rc: "repr_collection s fc (getObject e)"
    by (rule repr_editorE)
  from rc obtain fs vs where dc: "deref s fc = Some (Collection (others (getObject e)) fs)"
    and a: "as_array s fs = Some vs"
    and all: "list_all2 (repr_feature s) vs (features (getObject e))"
    by (rule repr_collectionE)
  have len: "length vs = length (features (getObject e))"
    using all by (rule list_all2_lengthD)
  show ?thesis
  proof (cases "0 \<le> fi \<and> fi < int (length vs)")
    case False
    then have n: "js_index (features (getObject e)) fi = None"
      using len by (auto simp: js_index_def)
    from False have "element_st s fs fi = VUndefined"
      by (auto simp: element_st_def a element_v_def js_index_def)
    moreover have "deref s VUndefined = None" by (simp add: deref_def)
    ultimately have "locate s this fi = None"
      by (simp add: locate_def d dc)
    with n show ?thesis by (rule none)
  next
    case True
    then have i: "nat fi < length vs" by auto
    let ?ef = "features (getObject e) ! nat fi"
    let ?f = "vs ! nat fi"
    have idx: "js_index (features (getObject e)) fi = Some ?ef"
      using True len by (simp add: js_index_def)
    have el: "element_st s fs fi = ?f"
      using True by (simp add: element_st_def a element_v_def js_index_def)
    have "repr_feature s ?f ?ef" using all i by (rule list_all2_nthD)
    then obtain g c where df: "deref s ?f = Some (Feature (properties ?ef) g)"
      and dg: "deref s g = Some (Geometry (gtype (geometry ?ef)) c)"
      and r: "repr s c (coordinates (geometry ?ef))"
      by (rule repr_featureE)
    have "locate s this fi = Some (fc, fs, ?f, g, gtype (geometry ?ef), c)"
      by (simp add: locate_def d dc el df dg)
    with idx show ?thesis using dc a all df dg r d by (rule some)
  qed
qed

lemma as_array_at:
  "n < length xs \<Longrightarrow> xs ! n = Array ys \<Longrightarrow> as_array (s @ xs) (VRef (length s + n)) = Some ys"
  by (simp add: as_array_def deref_def nth_append)

lemma rebuild_result:
  assumes "deref s g = Some (Geometry t c0)"
    and "deref s f = Some (Feature p g0)"
    and "deref s fc = Some (Collection q fs0)"
    and "as_array s fs = Some vs"
  shows "rebuild fc fs f g fi c' s =
           (Inr (VRef (length s + 6)),
            s @ [Geometry t c', Feature p (VRef (length s)),
                 Array (slice vs 0 fi), Array (slice_from vs (fi + 1)),
                 Array (slice vs 0 fi @ [VRef (length s + 1)] @ slice_from vs (fi + 1)),
                 Collection q (VRef (length s + 4)), Editor (VRef (length s + 5))])"
proof -
  let ?G = "Geometry t c'"
  let ?F = "Feature p (VRef (length s))"
  let ?A = "Array (slice vs 0 fi)"
  let ?B = "Array (slice_from vs (fi + 1))"
  let ?N = "Array (slice vs 0 fi @ [VRef (length s + 1)] @ slice_from vs (fi + 1))"
  let ?C = "Collection q (VRef (length s + 4))"
  let ?E = "Editor (VRef (length s + 5))"
  have 1: "spread_geometry g c' s = (Inr (VRef (length s)), s @ [?G])"
    by (simp add: spread_geometry_def assms(1) alloc_def)
  have 2: "spread_feature f (VRef (length s)) (s @ [?G]) = (Inr (VRef (length s + 1)), s @ [?G, ?F])"
    by (simp add: spread_feature_def deref_append[OF assms(2)] alloc_def)
  have 3: "slice_st fs 0 fi (s @ [?G, ?F]) = (Inr (VRef (length s + 2)), s @ [?G, ?F, ?A])"
    by (simp add: slice_st_def as_array_append[OF assms(4)] alloc_def)
  have 4: "slice_from_st fs (fi + 1) (s @ [?G, ?F, ?A])
             = (Inr (VRef (length s + 3)), s @ [?G, ?F, ?A, ?B])"
    by (simp add: slice_from_st_def as_array_append[OF assms(4)] alloc_def)
  have f: "as_array (s @ [?G, ?F, ?A, ?B]) (VRef (length s + 2)) = Some (slice vs 0 fi)"
    by (rule as_array_at) simp_all
  have k: "as_array (s @ [?G, ?F, ?A, ?B]) (VRef (length s + 3)) = Some (slice_from vs (fi + 1))"
    by (rule as_array_at) simp_all
  have 5: "array_literal (VRef (length s + 2)) [VRef (length s + 1)] (VRef (length s + 3))
             (s @ [?G, ?F, ?A, ?B])
             = (Inr (VRef (length s + 4)), s @ [?G, ?F, ?A, ?B, ?N])"
    unfolding array_literal_def f k by (simp add: alloc_def)
  have 6: "spread_collection fc (VRef (length s + 4)) (s @ [?G, ?F, ?A, ?B, ?N])
             = (Inr (VRef (length s + 5)), s @ [?G, ?F, ?A, ?B, ?N, ?C])"
    by (simp add: spread_collection_def deref_append[OF assms(3)] alloc_def)
  have 7: "alloc ?E (s @ [?G, ?F, ?A, ?B, ?N, ?C])
             = (Inr (VRef (length s + 6)), s @ [?G, ?F, ?A, ?B, ?N, ?C, ?E])"
    by (simp add: alloc_def)
  show ?thesis
    unfolding rebuild_def 1
    apply (simp only: bind_def prod.case sum.case 2)
    apply (simp only: bind_def prod.case sum.case 3)
    apply (simp only: bind_def prod.case sum.case 4)
    apply (simp only: bind_def prod.case sum.case 5)
    apply (simp only: bind_def prod.case sum.case 6)
    apply (simp only: 7)
    done
qed

lemma deref_at: "n < length xs \<Longrightarrow> deref (s @ xs) (VRef (length s + n)) = Some (xs ! n)"
  by (simp add: deref_def nth_append)

lemma rebuild_sim:
  assumes pre: "prefix s0 s"
    and dc: "deref s0 fc = Some (Collection (others fcv) fs)"
    and a: "as_array s0 fs = Some vs"
    and all: "list_all2 (repr_feature s0) vs (features fcv)"
    and df: "deref s0 f = Some (Feature (properties ef) g)"
    and dg: "deref s0 g = Some (Geometry (gtype (geometry ef)) c)"
    and rc: "repr s c' jc'"
  shows "sim repr_editor (rebuild fc fs f g fi c' s)
           (Inr (EditableFeatureCollection (fcv
              \<lparr>features := slice (features fcv) 0 fi
                   @ [ef\<lparr>geometry := (geometry ef)\<lparr>coordinates := jc'\<rparr>\<rparr>]
                   @ slice_from (features fcv) (fi + 1)\<rparr>)))"
proof -
  let ?G = "Geometry (gtype (geometry ef)) c'"
  let ?F = "Feature (properties ef) (VRef (length s))"
  let ?A = "Array (slice vs 0 fi)"
  let ?B = "Array (slice_from vs (fi + 1))"
  let ?new = "slice vs 0 fi @ [VRef (length s + 1)] @ slice_from vs (fi + 1)"
  let ?C = "Collection (others fcv) (VRef (length s + 4))"
  let ?E = "Editor (VRef (length s + 5))"
  let ?L = "[?G, ?F, ?A, ?B, Array ?new, ?C, ?E]"
  let ?S = "s @ ?L"
  let ?ef' = "ef\<lparr>geometry := (geometry ef)\<lparr>coordinates := jc'\<rparr>\<rparr>"
  have st: "rebuild fc fs f g fi c' s = (Inr (VRef (length s + 6)), ?S)"
    using deref_prefix[OF pre dg] deref_prefix[OF pre df] deref_prefix[OF pre dc]
      as_array_prefix[OF pre a]
    by (rule rebuild_result)
  have pS: "prefix s ?S" by simp
  have p0: "prefix s0 ?S" using pre pS by (rule prefix_order.trans)
  have dG: "deref ?S (VRef (length s)) = Some ?G"
    using deref_at[of 0 ?L s] by simp
  have dF: "deref ?S (VRef (length s + 1)) = Some ?F"
    using deref_at[of 1 ?L s] by simp
  have aN: "as_array ?S (VRef (length s + 4)) = Some ?new"
    by (rule as_array_at) simp_all
  have dC: "deref ?S (VRef (length s + 5)) = Some ?C"
    using deref_at[of 5 ?L s] by simp
  have dE: "deref ?S (VRef (length s + 6)) = Some ?E"
    using deref_at[of 6 ?L s] by simp
  have "repr ?S c' jc'" using pS rc by (rule repr_prefix)
  then have rf: "repr_feature ?S (VRef (length s + 1)) ?ef'"
    using dF dG by (simp add: repr_feature_def)
  have all': "list_all2 (repr_feature ?S) vs (features fcv)"
    using all
  proof (rule list_all2_mono)
    fix w x
    assume "repr_feature s0 w x"
    with p0 show "repr_feature ?S w x" by (rule repr_feature_prefix)
  qed
  have "list_all2 (repr_feature ?S) ?new
          (slice (features fcv) 0 fi @ [?ef'] @ slice_from (features fcv) (fi + 1))"
    using list_all2_slice[OF all'] list_all2_slice_from[OF all'] rf
    by (intro list_all2_appendI) simp_all
  then have "repr_collection ?S (VRef (length s + 5))
               (fcv\<lparr>features := slice (features fcv) 0 fi @ [?ef']
                        @ slice_from (features fcv) (fi + 1)\<rparr>)"
    using dC aN by (simp add: repr_collection_def)
  then have "repr_editor ?S (VRef (length s + 6))
               (EditableFeatureCollection (fcv\<lparr>features := slice (features fcv) 0 fi @ [?ef']
                        @ slice_from (features fcv) (fi + 1)\<rparr>))"
    using dE by (simp add: repr_editor_def)
  then show ?thesis unfolding st sim_def by simp
qed

lemma replacePosition_st_refines:
  assumes "repr_editor s this e" and "indexes = None \<or> repr s p jp"
  shows "sim repr_editor (replacePosition_st this fi indexes p s)
           (replacePosition e fi indexes jp)"
  using assms(1)
proof (cases rule: locate_cases[where fi = fi])
  case none
  then show ?thesis
    by (simp add: replacePosition_st_def replacePosition_def sim_fail)
next
  case (some ef fc fs vs f g c)
  let ?b = "gtype (geometry ef) = ''Polygon'' \<or> gtype (geometry ef) = ''MultiPolygon''"
  let ?m = "immutablyReplacePosition_st c indexes p ?b s"
  let ?v = "immutablyReplacePosition (coordinates (geometry ef)) indexes jp ?b"
  have st: "replacePosition_st this fi indexes p s = bind ?m (rebuild fc fs f g fi)"
    by (simp add: replacePosition_st_def some(2))
  have sm: "sim repr ?m ?v" using some(8) assms(2) by (rule replace_sim)
  obtain r1 s1 where m: "?m = (r1, s1)" by (cases ?m)
  have p1: "prefix s s1" using grows_immutablyReplacePosition_st m by (rule grows_prefix)
  show ?thesis
  proof (cases r1)
    case (Inl err)
    with sm m have "?v = Inl err" by (simp add: sim_def)
    then have "replacePosition e fi indexes jp = Inl err"
      by (simp add: replacePosition_def some(1) isPolygonal_of_def)
    then show ?thesis unfolding st m Inl by (simp add: bind_def sim_fail)
  next
    case (Inr c')
    with sm m obtain jc' where v: "?v = Inr jc'" and rc: "repr s1 c' jc'"
      by (cases ?v) (simp_all add: sim_def)
    have vl: "replacePosition e fi indexes jp =
        Inr (EditableFeatureCollection ((getObject e)
              \<lparr>features := slice (features (getObject e)) 0 fi
                   @ [ef\<lparr>geometry := (geometry ef)\<lparr>coordinates := jc'\<rparr>\<rparr>]
                   @ slice_from (features (getObject e)) (fi + 1)\<rparr>))"
      using v by (simp add: replacePosition_def some(1) isPolygonal_of_def)
    have "sim repr_editor (rebuild fc fs f g fi c' s1) (replacePosition e fi indexes jp)"
      unfolding vl using p1 some(3,4,5,6,7) rc by (rule rebuild_sim)
    then show ?thesis unfolding st m Inr by (simp add: bind_def)
  qed
qed

lemma removePosition_st_refines:
  assumes "repr_editor s this e"
  shows "sim repr_editor (removePosition_st this fi indexes s) (removePosition e fi indexes)"
  using assms(1)
proof (cases rule: locate_cases[where fi = fi])
  case none
  then show ?thesis
    by (simp add: removePosition_st_def removePosition_def sim_fail)
next
  case (some ef fc fs vs f g c)
  let ?b = "gtype (geometry ef) = ''Polygon'' \<or> gtype (geometry ef) = ''MultiPolygon''"
  let ?m = "immutablyRemovePosition_st c indexes ?b s"
  let ?v = "immutablyRemovePosition (coordinates (geometry ef)) indexes ?b"
  have st: "removePosition_st this fi indexes s = bind ?m (rebuild fc fs f g fi)"
    by (simp add: removePosition_st_def some(2))
  have sm: "sim repr ?m ?v" using some(8) by (rule remove_sim)
  obtain r1 s1 where m: "?m = (r1, s1)" by (cases ?m)
  have p1: "prefix s s1" using grows_immutablyRemovePosition_st m by (rule grows_prefix)
  show ?thesis
  proof (cases r1)
    case (Inl err)
    with sm m have "?v = Inl err" by (simp add: sim_def)
    then have "removePosition e fi indexes = Inl err"
      by (simp add: removePosition_def some(1) isPolygonal_of_def)
    then show ?thesis unfolding st m Inl by (simp add: bind_def sim_fail)
  next
    case (Inr c')
    with sm m obtain jc' where v: "?v = Inr jc'" and rc: "repr s1 c' jc'"
      by (cases ?v) (simp_all add: sim_def)
    have vl: "removePosition e fi indexes =
        Inr (EditableFeatureCollection ((getObject e)
              \<lparr>features := slice (features (getObject e)) 0 fi
                   @ [ef\<lparr>geometry := (geometry ef)\<lparr>coordinates := jc'\<rparr>\<rparr>]
                   @ slice_from (features (getObject e)) (fi + 1)\<rparr>))"
      using v by (simp add: removePosition_def some(1) isPolygonal_of_def)
    have "sim repr_editor (rebuild fc fs f g fi c' s1) (removePosition e fi indexes)"
      unfolding vl using p1 some(3,4,5,6,7) rc by (rule rebuild_sim)
    then show ?thesis unfolding st m Inr by (simp add: bind_def)
  qed
qed

section \<open>Supporting facts about the store\<close>

lemma sim_InlD: "sim R m (Inl e) \<Longrightarrow> fst m = Inl e"
  by (cases "fst m") (simp_all add: sim_def)

lemma sim_InrD:
  assumes "sim R m (Inr j)"
  obtains v where "fst m = Inr v" and "R (snd m) v j"
  using assms by (cases "fst m") (simp_all add: sim_def)

lemma replacePosition_st_untouched:
  assumes "repr_editor s this e"
  shows "leaves_untouched s this e (replacePosition_st this fi indexes p s)"
  using assms grows_replacePosition_st replacePosition_st_new_editor by (rule leaves_untouchedI)

lemma removePosition_st_untouched:
  assumes "repr_editor s this e"
  shows "leaves_untouched s this e (removePosition_st this fi indexes s)"
  using assms grows_removePosition_st removePosition_st_new_editor by (rule leaves_untouchedI)

lemma returns_new_editor_forI:
  assumes "sim repr_editor m (Inr e)"
    and "\<And>this' s'. m = (Inr this', s') \<Longrightarrow> is_new_editor s s' this'"
  shows "returns_new_editor_for s e m"
proof -
  from assms(1) obtain v where v: "fst m = Inr v" and r: "repr_editor (snd m) v e"
    by (rule sim_InrD)
  from v have "m = (Inr v, snd m)" by (cases m) simp
  then have "is_new_editor s (snd m) v" by (rule assms(2))
  with v r show ?thesis by (simp add: returns_new_editor_for_def)
qed

lemma replacePosition_st_shares:
  assumes ed: "repr_editor s this e"
    and res: "replacePosition_st this fi indexes p s = (Inr this', s')"
  shows "\<exists>vs new. features_st s this = Some vs \<and> 0 \<le> fi \<and> fi < int (length vs)
           \<and> features_st s' this' = Some (vs[nat fi := new])
           \<and> deref s new = None"
  using ed
proof (cases rule: locate_cases[where fi = fi])
  case none
  with res show ?thesis by (simp add: replacePosition_st_def)
next
  case (some ef fc fs vs f g c)
  let ?b = "gtype (geometry ef) = ''Polygon'' \<or> gtype (geometry ef) = ''MultiPolygon''"
  let ?m = "immutablyReplacePosition_st c indexes p ?b s"
  have st: "replacePosition_st this fi indexes p s = bind ?m (rebuild fc fs f g fi)"
    by (simp add: replacePosition_st_def some(2))
  from res[unfolded st] obtain c' s1 where m: "?m = (Inr c', s1)"
    and rb: "rebuild fc fs f g fi c' s1 = (Inr this', s')"
    by (rule bind_InrE)
  have p1: "prefix s s1" using grows_immutablyReplacePosition_st m by (rule grows_prefix)
  let ?new = "slice vs 0 fi @ [VRef (length s1 + 1)] @ slice_from vs (fi + 1)"
  let ?L = "[Geometry (gtype (geometry ef)) c', Feature (properties ef) (VRef (length s1)),
             Array (slice vs 0 fi), Array (slice_from vs (fi + 1)), Array ?new,
             Collection (others (getObject e)) (VRef (length s1 + 4)),
             Editor (VRef (length s1 + 5))]"
  have "rebuild fc fs f g fi c' s1 = (Inr (VRef (length s1 + 6)), s1 @ ?L)"
    using deref_prefix[OF p1 some(7)] deref_prefix[OF p1 some(6)] deref_prefix[OF p1 some(3)]
      as_array_prefix[OF p1 some(4)]
    by (rule rebuild_result)
  with rb have t: "this' = VRef (length s1 + 6)" and s': "s' = s1 @ ?L" by simp_all
  have len: "length vs = length (features (getObject e))"
    using some(5) by (rule list_all2_lengthD)
  from some(1) have i: "0 \<le> fi" "fi < int (length vs)"
    unfolding len by (simp_all add: js_index_Some)
  have old: "features_st s this = Some vs"
    by (simp add: features_st_def getObject_st_def some(9) some(3) some(4))
  have dE: "deref s' this' = Some (Editor (VRef (length s1 + 5)))"
    unfolding t s' using deref_at[of 6 ?L s1] by simp
  have dC: "deref s' (VRef (length s1 + 5))
              = Some (Collection (others (getObject e)) (VRef (length s1 + 4)))"
    unfolding s' using deref_at[of 5 ?L s1] by simp
  have aN: "as_array s' (VRef (length s1 + 4)) = Some ?new"
    unfolding s' by (rule as_array_at) simp_all
  have "?new = vs[nat fi := VRef (length s1 + 1)]"
    using splice_valid[OF i] by simp
  then have new: "features_st s' this' = Some (vs[nat fi := VRef (length s1 + 1)])"
    by (simp add: features_st_def getObject_st_def dE dC aN)
  have "length s \<le> length s1" using p1 by (rule prefix_length_le)
  then have fresh: "deref s (VRef (length s1 + 1)) = None"
    by (simp add: deref_def)
  show ?thesis using old i new fresh by blast
qed

lemma two_features_store_repr: "repr_editor two_features_store (VRef 11) two_features"
  by code_simp

lemma two_features_store_position: "repr two_features_store (VRef 12) (P 5 5)"
  by code_simp

lemma two_features_store_features:
  "features_st two_features_store (VRef 11) = Some [VRef 2, VRef 8]"
  by code_simp

section \<open>The properties of the specification\<close>

text \<open>
  C1. For a Polygon (rings one level down) or a MultiPolygon (rings two levels down), a
  path that addresses index 0 or the last index of a ring makes \<open>replacePosition\<close>
  succeed, and in the collection it returns the ring at the same place has the same length
  and has the new position both as its first and as its last element.
\<close>

theorem replaceVertex_mirrors_ring_endpoint:
  assumes "js_index (features (getObject e)) featureIndex = Some f"
    and "gtype (geometry f) = ''Polygon'' \<and> length ringPath = 1
         \<or> gtype (geometry f) = ''MultiPolygon'' \<and> length ringPath = 2"
    and "lookup_path (coordinates (geometry f)) ringPath = Some (Arr ring)"
    and "0 \<le> k" and "k < int (length ring)"
    and "k = 0 \<or> k = int (length ring) - 1"
  shows "\<exists>e' f' ring'.
      replacePosition e featureIndex (Some (ringPath @ [k])) newPosition = Inr e'
    \<and> js_index (features (getObject e')) featureIndex = Some f'
    \<and> lookup_path (coordinates (geometry f')) ringPath = Some (Arr ring')
    \<and> length ring' = length ring
    \<and> element ring' 0 = newPosition
    \<and> element ring' (int (length ring') - 1) = newPosition"
proof -
  let ?ring' = "(ring[nat k := newPosition])[0 := newPosition, length ring - 1 := newPosition]"
  have poly: "isPolygonal_of (geometry f)"
    using assms(2) by (auto simp: isPolygonal_of_def)
  have tm: "immutablyReplacePosition (Arr ring) (Some [k]) newPosition True = Inr (Arr ?ring')"
    using assms(4-6) by (rule replace_terminal_endpoint)
  from replace_descend[OF assms(3) tm] obtain c' where
    c': "immutablyReplacePosition (coordinates (geometry f)) (Some (ringPath @ [k]))
           newPosition True = Inr c'"
    and l': "lookup_path c' ringPath = Some (Arr ?ring')"
    by blast
  let ?f' = "f\<lparr>geometry := (geometry f)\<lparr>coordinates := c'\<rparr>\<rparr>"
  let ?e' = "EditableFeatureCollection ((getObject e)
             \<lparr>features := (features (getObject e))[nat featureIndex := ?f']\<rparr>)"
  have r: "replacePosition e featureIndex (Some (ringPath @ [k])) newPosition = Inr ?e'"
    using replacePosition_valid[OF assms(1)] c' poly by simp
  have i: "js_index (features (getObject ?e')) featureIndex = Some ?f'"
    using js_index_update[OF assms(1)] by simp
  have ne: "ring \<noteq> []" using assms(4,5) by auto
  have e0: "element ?ring' 0 = newPosition"
    using ne by (cases "length ring - 1 = 0") (simp_all add: element_def js_index_def)
  have n1: "nat (int (length ring) - 1) = length ring - 1" by simp
  have el: "element ?ring' (int (length ?ring') - 1) = newPosition"
    using ne by (simp add: element_def js_index_def n1 del: nat_diff_distrib)
  show ?thesis
    using r i l' e0 el by (intro exI[of _ ?e'] exI[of _ ?f'] exI[of _ ?ring']) simp
qed

theorem replaceVertex_mirrors_ring_endpoint_witness:
  "js_index (features (getObject triangle_polygon)) 0
     = Some \<lparr>properties = (), geometry = \<lparr>gtype = ''Polygon'', coordinates = Arr [Arr triangle_ring]\<rparr>\<rparr>
   \<and> lookup_path (Arr [Arr triangle_ring]) [0] = Some (Arr triangle_ring)
   \<and> (\<exists>e' f' ring'.
      replacePosition triangle_polygon 0 (Some [0, 0]) (P 5 5) = Inr e'
    \<and> js_index (features (getObject e')) 0 = Some f'
    \<and> lookup_path (coordinates (geometry f')) [0] = Some (Arr ring')
    \<and> length ring' = 4
    \<and> element ring' 0 = P 5 5
    \<and> element ring' (int (length ring') - 1) = P 5 5)"
proof -
  let ?f = "\<lparr>properties = (), geometry = \<lparr>gtype = ''Polygon'', coordinates = Arr [Arr triangle_ring]\<rparr>\<rparr>"
  have h1: "js_index (features (getObject triangle_polygon)) 0 = Some ?f"
    by (simp add: triangle_polygon_def collection_of_def js_index_def)
  have h2: "gtype (geometry ?f) = ''Polygon'' \<and> length [0::int] = 1
         \<or> gtype (geometry ?f) = ''MultiPolygon'' \<and> length [0::int] = 2"
    by simp
  have h3: "lookup_path (coordinates (geometry ?f)) [0] = Some (Arr triangle_ring)"
    by (simp add: js_index_def)
  have h4: "(0::int) \<le> 0" by simp
  have h5: "0 < int (length triangle_ring)" by (simp add: triangle_ring_def)
  have h6: "(0::int) = 0 \<or> 0 = int (length triangle_ring) - 1" by simp
  have c: "\<exists>e' f' ring'.
      replacePosition triangle_polygon 0 (Some ([0] @ [0])) (P 5 5) = Inr e'
    \<and> js_index (features (getObject e')) 0 = Some f'
    \<and> lookup_path (coordinates (geometry f')) [0] = Some (Arr ring')
    \<and> length ring' = length triangle_ring
    \<and> element ring' 0 = P 5 5
    \<and> element ring' (int (length ring') - 1) = P 5 5"
    by (rule replaceVertex_mirrors_ring_endpoint[OF h1 h2 h3 h4 h5 h6])
  have len: "length triangle_ring = 4" by (simp add: triangle_ring_def)
  from h3 have h3': "lookup_path (Arr [Arr triangle_ring]) [0] = Some (Arr triangle_ring)" by simp
  from c have c': "\<exists>e' f' ring'.
      replacePosition triangle_polygon 0 (Some [0, 0]) (P 5 5) = Inr e'
    \<and> js_index (features (getObject e')) 0 = Some f'
    \<and> lookup_path (coordinates (geometry f')) [0] = Some (Arr ring')
    \<and> length ring' = 4
    \<and> element ring' 0 = P 5 5
    \<and> element ring' (int (length ring') - 1) = P 5 5"
    unfolding len by simp
  show ?thesis by (intro conjI h1 h3' c')
qed

text \<open>
  C2. For a Polygon or a MultiPolygon, a path that leads to a ring of fewer than 5
  positions makes \<open>removePosition\<close> fail with the error of the ring-size guard,
  whatever its last index: there is no new collection. Over a store, for any editor that
  wraps the collection, the call fails with the same error, and every object of the store
  before the call is unchanged after it: the editor wraps the same reference, which stands
  for the same collection. A ring of exactly 4 positions is the instance of the witness.
\<close>

theorem removeVertex_rejects_small_ring:
  assumes "js_index (features (getObject e)) featureIndex = Some f"
    and "gtype (geometry f) = ''Polygon'' \<and> length ringPath = 1
         \<or> gtype (geometry f) = ''MultiPolygon'' \<and> length ringPath = 2"
    and "lookup_path (coordinates (geometry f)) ringPath = Some (Arr ring)"
    and "length ring < 5"
  shows "removePosition e featureIndex (Some (ringPath @ [k])) = Inl ring_too_small
       \<and> (repr_editor s this e \<longrightarrow>
            fst (removePosition_st this featureIndex (Some (ringPath @ [k])) s)
              = Inl ring_too_small
            \<and> leaves_untouched s this e
                (removePosition_st this featureIndex (Some (ringPath @ [k])) s))"
proof -
  have poly: "isPolygonal_of (geometry f)"
    using assms(2) by (auto simp: isPolygonal_of_def)
  have "immutablyRemovePosition (Arr ring) (Some [k]) True = Inl ring_too_small"
    unfolding ring_too_small_def using assms(4) by (rule remove_terminal_too_small)
  then have "immutablyRemovePosition (coordinates (geometry f)) (Some (ringPath @ [k]))
               (isPolygonal_of (geometry f)) = Inl ring_too_small"
    using remove_descend_error[OF assms(3)] poly by simp
  then have v: "removePosition e featureIndex (Some (ringPath @ [k])) = Inl ring_too_small"
    using assms(1) by (rule removePosition_error[rotated])
  have st: "fst (removePosition_st this featureIndex (Some (ringPath @ [k])) s)
              = Inl ring_too_small
            \<and> leaves_untouched s this e
                (removePosition_st this featureIndex (Some (ringPath @ [k])) s)"
    if ed: "repr_editor s this e"
  proof
    have "sim repr_editor (removePosition_st this featureIndex (Some (ringPath @ [k])) s)
            (Inl ring_too_small)"
      using removePosition_st_refines[OF ed, of featureIndex "Some (ringPath @ [k])"]
      unfolding v .
    then show "fst (removePosition_st this featureIndex (Some (ringPath @ [k])) s)
                 = Inl ring_too_small"
      by (rule sim_InlD)
    show "leaves_untouched s this e
            (removePosition_st this featureIndex (Some (ringPath @ [k])) s)"
      using ed by (rule removePosition_st_untouched)
  qed
  show ?thesis using v st by blast
qed

theorem removeVertex_rejects_small_ring_witness:
  "js_index (features (getObject triangle_polygon)) 0
     = Some \<lparr>properties = (), geometry = \<lparr>gtype = ''Polygon'', coordinates = Arr [Arr triangle_ring]\<rparr>\<rparr>
   \<and> lookup_path (Arr [Arr triangle_ring]) [0] = Some (Arr triangle_ring)
   \<and> length triangle_ring = 4
   \<and> repr_editor triangle_store (VRef 9) triangle_polygon
   \<and> removePosition triangle_polygon 0 (Some [0, 1]) = Inl ring_too_small
   \<and> fst (removePosition_st (VRef 9) 0 (Some [0, 1]) triangle_store) = Inl ring_too_small
   \<and> leaves_untouched triangle_store (VRef 9) triangle_polygon
        (removePosition_st (VRef 9) 0 (Some [0, 1]) triangle_store)"
proof -
  let ?f = "\<lparr>properties = (), geometry = \<lparr>gtype = ''Polygon'', coordinates = Arr [Arr triangle_ring]\<rparr>\<rparr>"
  have h1: "js_index (features (getObject triangle_polygon)) 0 = Some ?f"
    by (simp add: triangle_polygon_def collection_of_def js_index_def)
  have h2: "gtype (geometry ?f) = ''Polygon'' \<and> length [0::int] = 1
         \<or> gtype (geometry ?f) = ''MultiPolygon'' \<and> length [0::int] = 2"
    by simp
  have h3: "lookup_path (coordinates (geometry ?f)) [0] = Some (Arr triangle_ring)"
    by (simp add: js_index_def)
  have len: "length triangle_ring = 4" by (simp add: triangle_ring_def)
  then have h4: "length triangle_ring < 5" by simp
  have ed: "repr_editor triangle_store (VRef 9) triangle_polygon"
    by (rule triangle_store_repr)
  from removeVertex_rejects_small_ring[OF h1 h2 h3 h4, of 1 triangle_store "VRef 9"] ed
  have c: "removePosition triangle_polygon 0 (Some [0, 1]) = Inl ring_too_small"
    and d: "fst (removePosition_st (VRef 9) 0 (Some [0, 1]) triangle_store) = Inl ring_too_small"
    and u: "leaves_untouched triangle_store (VRef 9) triangle_polygon
        (removePosition_st (VRef 9) 0 (Some [0, 1]) triangle_store)"
    by simp_all
  from h3 have h3': "lookup_path (Arr [Arr triangle_ring]) [0] = Some (Arr triangle_ring)" by simp
  show ?thesis by (intro conjI h1 h3' len ed c d u)
qed

text \<open>
  C3. On the ring \<open>[[0,0],[1,0],[1,1],[0,0]]\<close> the removal does not succeed: the ring
  has 4 positions and the guard rejects it.
\<close>

theorem remove_from_triangle_counterexample:
  "removePosition triangle_polygon 0 (Some [0, 0]) = Inl ring_too_small"
  by (simp add: removePosition_def triangle_polygon_def collection_of_def triangle_ring_def
      js_index_def element_def isPolygonal_of_def ring_too_small_def)

text \<open>
  C3, as amended. On the ring \<open>[[0,0],[1,0],[1,1],[0,0]]\<close>,
  \<open>removePosition 0 [0,0]\<close> fails with the error of the ring-size guard. Removal
  succeeds from 5 positions on: on the ring \<open>[[0,0],[1,0],[1,1],[0,1],[0,0]]\<close> it
  yields the ring \<open>[[1,0],[1,1],[0,1],[1,0]]\<close> of length 4, whose first and last
  positions are equal and which has exactly 3 distinct vertices.
\<close>

theorem remove_needs_five_positions:
  "removePosition triangle_polygon 0 (Some [0, 0]) = Inl ring_too_small
   \<and> removePosition square_polygon 0 (Some [0, 0])
       = Inr (collection_of \<lparr>gtype = ''Polygon'',
                coordinates = Arr [Arr [P 1 0, P 1 1, P 0 1, P 1 0]]\<rparr>)
   \<and> length [P 1 0, P 1 1, P 0 1, P 1 0] = 4
   \<and> hd [P 1 0, P 1 1, P 0 1, P 1 0] = last [P 1 0, P 1 1, P 0 1, P 1 0]
   \<and> card (set [P 1 0, P 1 1, P 0 1, P 1 0]) = 3"
proof -
  have a: "removePosition triangle_polygon 0 (Some [0, 0]) = Inl ring_too_small"
    by (simp add: removePosition_def triangle_polygon_def collection_of_def triangle_ring_def
        js_index_def element_def isPolygonal_of_def ring_too_small_def)
  have b: "removePosition square_polygon 0 (Some [0, 0])
       = Inr (collection_of \<lparr>gtype = ''Polygon'',
                coordinates = Arr [Arr [P 1 0, P 1 1, P 0 1, P 1 0]]\<rparr>)"
    by (simp add: removePosition_def square_polygon_def collection_of_def square_ring_def
        js_index_def element_def isPolygonal_of_def slice_def slice_from_def relative_index_def
        array_set_def Let_def)
  have c: "card (set [P 1 0, P 1 1, P 0 1, P 1 0]) = 3"
    by (simp add: P_def card_insert_if)
  show ?thesis using a b c by simp
qed

text \<open>
  C4. For a Polygon or a MultiPolygon and a ring of at least 5 positions, removing index 0
  or the last index succeeds, the ring is one position shorter, and its first and last
  positions are equal: after removing index 0 the last slot holds the new first position
  (the old second one), after removing the last index the first slot holds the new last
  position (the old last but one).
\<close>

theorem removeVertex_recloses_ring:
  assumes "js_index (features (getObject e)) featureIndex = Some f"
    and "gtype (geometry f) = ''Polygon'' \<and> length ringPath = 1
         \<or> gtype (geometry f) = ''MultiPolygon'' \<and> length ringPath = 2"
    and "lookup_path (coordinates (geometry f)) ringPath = Some (Arr ring)"
    and "5 \<le> length ring"
    and "k = 0 \<or> k = int (length ring) - 1"
  shows "\<exists>e' f' ring'.
      removePosition e featureIndex (Some (ringPath @ [k])) = Inr e'
    \<and> js_index (features (getObject e')) featureIndex = Some f'
    \<and> lookup_path (coordinates (geometry f')) ringPath = Some (Arr ring')
    \<and> length ring' = length ring - 1
    \<and> element ring' 0 = element ring' (int (length ring') - 1)
    \<and> (k = 0 \<longrightarrow> ring' = (tl ring)[length ring - 2 := ring ! 1])
    \<and> (k = int (length ring) - 1 \<longrightarrow> ring' = (butlast ring)[0 := ring ! (length ring - 2)])"
proof -
  define ring' where "ring' = (if k = 0 then (tl ring)[length ring - 2 := ring ! 1]
                                else (butlast ring)[0 := ring ! (length ring - 2)])"
  have poly: "isPolygonal_of (geometry f)"
    using assms(2) by (auto simp: isPolygonal_of_def)
  have tm: "immutablyRemovePosition (Arr ring) (Some [k]) True = Inr (Arr ring')"
    using assms(5) remove_terminal_first[OF assms(4)] remove_terminal_last[OF assms(4)]
    by (auto simp: ring'_def)
  from remove_descend[OF assms(3) tm] obtain c' where
    c': "immutablyRemovePosition (coordinates (geometry f)) (Some (ringPath @ [k])) True = Inr c'"
    and l': "lookup_path c' ringPath = Some (Arr ring')"
    by blast
  let ?f' = "f\<lparr>geometry := (geometry f)\<lparr>coordinates := c'\<rparr>\<rparr>"
  let ?e' = "EditableFeatureCollection ((getObject e)
             \<lparr>features := (features (getObject e))[nat featureIndex := ?f']\<rparr>)"
  have r: "removePosition e featureIndex (Some (ringPath @ [k])) = Inr ?e'"
    using removePosition_valid[OF assms(1)] c' poly by simp
  have i: "js_index (features (getObject ?e')) featureIndex = Some ?f'"
    using js_index_update[OF assms(1)] by simp
  have len: "length ring' = length ring - 1" by (simp add: ring'_def)
  have j: "0 \<le> int (length ring') - 1" "int (length ring') - 1 < int (length ring')"
    "nat (int (length ring') - 1) = length ring - 2" "(0::int) \<le> 0" "0 < int (length ring')"
    using assms(4) len by auto
  have cl: "element ring' 0 = element ring' (int (length ring') - 1)"
    unfolding element_nth[OF j(1,2)] element_nth[OF j(4,5)] j(3)
    using assms(4) by (simp add: ring'_def nth_tl nth_butlast)
  have k0: "k = 0 \<longrightarrow> ring' = (tl ring)[length ring - 2 := ring ! 1]"
    by (simp add: ring'_def)
  have kl: "k = int (length ring) - 1 \<longrightarrow> ring' = (butlast ring)[0 := ring ! (length ring - 2)]"
    using assms(4) by (auto simp: ring'_def)
  show ?thesis
    using r i l' len cl k0 kl by (intro exI[of _ ?e'] exI[of _ ?f'] exI[of _ ring']) simp
qed

theorem removeVertex_recloses_ring_witness:
  "js_index (features (getObject square_polygon)) 0
     = Some \<lparr>properties = (), geometry = \<lparr>gtype = ''Polygon'', coordinates = Arr [Arr square_ring]\<rparr>\<rparr>
   \<and> lookup_path (Arr [Arr square_ring]) [0] = Some (Arr square_ring)
   \<and> length square_ring = 5
   \<and> (\<exists>e' f' ring'.
      removePosition square_polygon 0 (Some [0, 4]) = Inr e'
    \<and> js_index (features (getObject e')) 0 = Some f'
    \<and> lookup_path (coordinates (geometry f')) [0] = Some (Arr ring')
    \<and> length ring' = 4
    \<and> element ring' 0 = element ring' (int (length ring') - 1)
    \<and> ring' = [P 0 1, P 1 0, P 1 1, P 0 1])"
proof -
  let ?f = "\<lparr>properties = (), geometry = \<lparr>gtype = ''Polygon'', coordinates = Arr [Arr square_ring]\<rparr>\<rparr>"
  have h1: "js_index (features (getObject square_polygon)) 0 = Some ?f"
    by (simp add: square_polygon_def collection_of_def js_index_def)
  have h2: "gtype (geometry ?f) = ''Polygon'' \<and> length [0::int] = 1
         \<or> gtype (geometry ?f) = ''MultiPolygon'' \<and> length [0::int] = 2"
    by simp
  have h3: "lookup_path (coordinates (geometry ?f)) [0] = Some (Arr square_ring)"
    by (simp add: js_index_def)
  have len: "length square_ring = 5" by (simp add: square_ring_def)
  then have h4: "5 \<le> length square_ring" by simp
  have h5: "(4::int) = 0 \<or> 4 = int (length square_ring) - 1" by (simp add: len)
  have sq: "(butlast square_ring)[0 := square_ring ! (length square_ring - 2)]
              = [P 0 1, P 1 0, P 1 1, P 0 1]"
    by (simp add: square_ring_def)
  have "\<exists>e' f' ring'.
      removePosition square_polygon 0 (Some ([0] @ [4])) = Inr e'
    \<and> js_index (features (getObject e')) 0 = Some f'
    \<and> lookup_path (coordinates (geometry f')) [0] = Some (Arr ring')
    \<and> length ring' = length square_ring - 1
    \<and> element ring' 0 = element ring' (int (length ring') - 1)
    \<and> (4 = (0::int) \<longrightarrow> ring' = (tl square_ring)[length square_ring - 2 := square_ring ! 1])
    \<and> (4 = int (length square_ring) - 1
         \<longrightarrow> ring' = (butlast square_ring)[0 := square_ring ! (length square_ring - 2)])"
    by (rule removeVertex_recloses_ring[OF h1 h2 h3 h4 h5])
  then have c: "\<exists>e' f' ring'.
      removePosition square_polygon 0 (Some [0, 4]) = Inr e'
    \<and> js_index (features (getObject e')) 0 = Some f'
    \<and> lookup_path (coordinates (geometry f')) [0] = Some (Arr ring')
    \<and> length ring' = 4
    \<and> element ring' 0 = element ring' (int (length ring') - 1)
    \<and> ring' = [P 0 1, P 1 0, P 1 1, P 0 1]"
    unfolding sq by (simp add: len)
  from h3 have h3': "lookup_path (Arr [Arr square_ring]) [0] = Some (Arr square_ring)" by simp
  show ?thesis by (intro conjI h1 h3' len c)
qed

text \<open>
  C5. For an editor that wraps a collection in a store, and for every call of
  \<open>replacePosition\<close> or \<open>removePosition\<close> on it, with any arguments and whether
  the call succeeds or fails: every object of the store before the call is unchanged after
  it, \<open>getObject\<close> of the editor returns the same reference, which still stands for
  the same collection value, and the result of a call that succeeds is an editor allocated
  by the call that wraps a collection allocated by the call.
\<close>

theorem edits_leave_wrapped_collection_untouched:
  assumes "repr_editor s this e"
  shows "leaves_untouched s this e (replacePosition_st this featureIndex indexes newPosition s)
       \<and> leaves_untouched s this e (removePosition_st this featureIndex indexes s)"
proof
  show "leaves_untouched s this e (replacePosition_st this featureIndex indexes newPosition s)"
    using assms grows_replacePosition_st replacePosition_st_new_editor
    by (rule leaves_untouchedI)
  show "leaves_untouched s this e (removePosition_st this featureIndex indexes s)"
    using assms grows_removePosition_st removePosition_st_new_editor
    by (rule leaves_untouchedI)
qed

theorem edits_leave_wrapped_collection_untouched_witness:
  "repr_editor triangle_store (VRef 9) triangle_polygon
   \<and> leaves_untouched triangle_store (VRef 9) triangle_polygon
        (replacePosition_st (VRef 9) 0 (Some [0, 0]) (VRef 10) triangle_store)
   \<and> leaves_untouched triangle_store (VRef 9) triangle_polygon
        (removePosition_st (VRef 9) 0 (Some [0, 0]) triangle_store)
   \<and> fst (replacePosition_st (VRef 9) 0 (Some [0, 0]) (VRef 10) triangle_store) = Inr (VRef 23)"
proof -
  have h: "repr_editor triangle_store (VRef 9) triangle_polygon"
    by (rule triangle_store_repr)
  from edits_leave_wrapped_collection_untouched[OF h, of 0 "Some [0, 0]" "VRef 10"]
  have a: "leaves_untouched triangle_store (VRef 9) triangle_polygon
        (replacePosition_st (VRef 9) 0 (Some [0, 0]) (VRef 10) triangle_store)"
    and b: "leaves_untouched triangle_store (VRef 9) triangle_polygon
        (removePosition_st (VRef 9) 0 (Some [0, 0]) triangle_store)"
    by blast+
  have c: "fst (replacePosition_st (VRef 9) 0 (Some [0, 0]) (VRef 10) triangle_store)
             = Inr (VRef 23)"
    by (simp add: triangle_store_replace)
  show ?thesis by (intro conjI h a b c)
qed

text \<open>
  C6. With a feature index that addresses a feature and a path that addresses a value of
  its coordinates, \<open>replacePosition\<close> succeeds; the new collection has as many
  features, every feature at another index is the one of the original collection, the
  feature at the index is the original one with only the coordinates of its geometry
  replaced, and the other fields of the collection are unchanged. Over a store, for any
  editor that wraps the collection, the call succeeds, leaves every object of the store
  before the call unchanged, and the \<open>features\<close> array of the new collection holds
  the references of the original array, except at the index, where it holds a reference
  to an object allocated by the call.
\<close>

theorem replaceVertex_frame:
  assumes "js_index (features (getObject e)) featureIndex = Some f"
    and "lookup_path (coordinates (geometry f)) path \<noteq> None"
  shows "(\<exists>e' c'.
      replacePosition e featureIndex (Some path) newPosition = Inr e'
    \<and> length (features (getObject e')) = length (features (getObject e))
    \<and> (\<forall>j. j \<noteq> featureIndex
          \<longrightarrow> js_index (features (getObject e')) j = js_index (features (getObject e)) j)
    \<and> js_index (features (getObject e')) featureIndex
        = Some (f\<lparr>geometry := (geometry f)\<lparr>coordinates := c'\<rparr>\<rparr>)
    \<and> others (getObject e') = others (getObject e))
   \<and> (repr_editor s this e \<and> repr s p newPosition \<longrightarrow>
        (\<exists>this' s' vs new.
            replacePosition_st this featureIndex (Some path) p s = (Inr this', s')
          \<and> prefix s s'
          \<and> features_st s this = Some vs
          \<and> features_st s' this' = Some (vs[nat featureIndex := new])
          \<and> deref s new = None))"
proof -
  from replace_valid_path_succeeds[OF assms(2)] obtain c' where
    c': "immutablyReplacePosition (coordinates (geometry f)) (Some path) newPosition
           (isPolygonal_of (geometry f)) = Inr c'"
    by blast
  let ?f' = "f\<lparr>geometry := (geometry f)\<lparr>coordinates := c'\<rparr>\<rparr>"
  let ?e' = "EditableFeatureCollection ((getObject e)
             \<lparr>features := (features (getObject e))[nat featureIndex := ?f']\<rparr>)"
  have r: "replacePosition e featureIndex (Some path) newPosition = Inr ?e'"
    by (rule replacePosition_valid[OF assms(1) c'])
  have i: "js_index (features (getObject ?e')) featureIndex = Some ?f'"
    using js_index_update[OF assms(1)] by simp
  have o: "\<forall>j. j \<noteq> featureIndex
          \<longrightarrow> js_index (features (getObject ?e')) j = js_index (features (getObject e)) j"
    using assms(1) by (auto simp: js_index_def split: if_splits)
  have v: "\<exists>e' c'.
      replacePosition e featureIndex (Some path) newPosition = Inr e'
    \<and> length (features (getObject e')) = length (features (getObject e))
    \<and> (\<forall>j. j \<noteq> featureIndex
          \<longrightarrow> js_index (features (getObject e')) j = js_index (features (getObject e)) j)
    \<and> js_index (features (getObject e')) featureIndex
        = Some (f\<lparr>geometry := (geometry f)\<lparr>coordinates := c'\<rparr>\<rparr>)
    \<and> others (getObject e') = others (getObject e)"
    using r i o by (intro exI[of _ ?e'] exI[of _ c']) simp
  have st: "\<exists>this' s' vs new.
            replacePosition_st this featureIndex (Some path) p s = (Inr this', s')
          \<and> prefix s s'
          \<and> features_st s this = Some vs
          \<and> features_st s' this' = Some (vs[nat featureIndex := new])
          \<and> deref s new = None"
    if ed: "repr_editor s this e" and rp: "repr s p newPosition"
  proof -
    let ?m = "replacePosition_st this featureIndex (Some path) p s"
    have "sim repr_editor ?m (Inr ?e')"
      using replacePosition_st_refines[OF ed, of "Some path" p newPosition featureIndex] rp
      unfolding r by simp
    then obtain this' where "fst ?m = Inr this'" by (rule sim_InrD)
    then have m: "?m = (Inr this', snd ?m)" by (cases ?m) simp
    have "prefix s (snd ?m)" using grows_replacePosition_st m by (rule grows_prefix)
    moreover from replacePosition_st_shares[OF ed m] obtain vs new where
      "features_st s this = Some vs"
      "features_st (snd ?m) this' = Some (vs[nat featureIndex := new])"
      "deref s new = None"
      by blast
    ultimately show ?thesis using m by blast
  qed
  show ?thesis using v st by blast
qed

theorem replaceVertex_frame_witness:
  "js_index (features (getObject two_features)) 1
     = Some \<lparr>properties = ''second'',
          geometry = \<lparr>gtype = ''LineString'', coordinates = Arr [P 0 0, P 1 0, P 1 1]\<rparr>\<rparr>
   \<and> lookup_path (Arr [P 0 0, P 1 0, P 1 1]) [2] \<noteq> None
   \<and> repr_editor two_features_store (VRef 11) two_features
   \<and> repr two_features_store (VRef 12) (P 5 5)
   \<and> (\<exists>e' c'.
      replacePosition two_features 1 (Some [2]) (P 5 5) = Inr e'
    \<and> length (features (getObject e')) = 2
    \<and> js_index (features (getObject e')) 0
        = Some \<lparr>properties = ''first'', geometry = \<lparr>gtype = ''Point'', coordinates = P 3 4\<rparr>\<rparr>
    \<and> js_index (features (getObject e')) 1
        = Some \<lparr>properties = ''second'', geometry = \<lparr>gtype = ''LineString'', coordinates = c'\<rparr>\<rparr>
    \<and> others (getObject e') = ''FeatureCollection'')
   \<and> (\<exists>this' s' new.
          replacePosition_st (VRef 11) 1 (Some [2]) (VRef 12) two_features_store = (Inr this', s')
        \<and> prefix two_features_store s'
        \<and> features_st s' this' = Some [VRef 2, new]
        \<and> deref two_features_store new = None)"
proof -
  let ?f = "\<lparr>properties = ''second'',
          geometry = \<lparr>gtype = ''LineString'', coordinates = Arr [P 0 0, P 1 0, P 1 1]\<rparr>\<rparr>"
  have h1: "js_index (features (getObject two_features)) 1 = Some ?f"
    by (simp add: two_features_def js_index_def)
  have h2': "lookup_path (Arr [P 0 0, P 1 0, P 1 1]) [2] \<noteq> None"
    by (simp add: js_index_def)
  then have h2: "lookup_path (coordinates (geometry ?f)) [2] \<noteq> None" by simp
  have ed: "repr_editor two_features_store (VRef 11) two_features"
    by (rule two_features_store_repr)
  have rp: "repr two_features_store (VRef 12) (P 5 5)"
    by (rule two_features_store_position)
  have f0: "js_index (features (getObject two_features)) 0
        = Some \<lparr>properties = ''first'', geometry = \<lparr>gtype = ''Point'', coordinates = P 3 4\<rparr>\<rparr>"
    by (simp add: two_features_def js_index_def)
  have l: "length (features (getObject two_features)) = 2"
    and o: "others (getObject two_features) = ''FeatureCollection''"
    by (simp_all add: two_features_def)
  note inst = replaceVertex_frame[OF h1 h2, of "P 5 5" two_features_store "VRef 11" "VRef 12"]
  from inst obtain e' c' where
    r: "replacePosition two_features 1 (Some [2]) (P 5 5) = Inr e'"
    and len: "length (features (getObject e')) = length (features (getObject two_features))"
    and oth: "\<forall>j. j \<noteq> 1
          \<longrightarrow> js_index (features (getObject e')) j = js_index (features (getObject two_features)) j"
    and upd: "js_index (features (getObject e')) 1
        = Some (?f\<lparr>geometry := (geometry ?f)\<lparr>coordinates := c'\<rparr>\<rparr>)"
    and ot: "others (getObject e') = others (getObject two_features)"
    by blast
  from oth have "js_index (features (getObject e')) 0 = js_index (features (getObject two_features)) 0"
    by simp
  with f0 r len upd ot l o have "replacePosition two_features 1 (Some [2]) (P 5 5) = Inr e'
    \<and> length (features (getObject e')) = 2
    \<and> js_index (features (getObject e')) 0
        = Some \<lparr>properties = ''first'', geometry = \<lparr>gtype = ''Point'', coordinates = P 3 4\<rparr>\<rparr>
    \<and> js_index (features (getObject e')) 1
        = Some \<lparr>properties = ''second'', geometry = \<lparr>gtype = ''LineString'', coordinates = c'\<rparr>\<rparr>
    \<and> others (getObject e') = ''FeatureCollection''"
    by simp
  then have c: "\<exists>e' c'.
      replacePosition two_features 1 (Some [2]) (P 5 5) = Inr e'
    \<and> length (features (getObject e')) = 2
    \<and> js_index (features (getObject e')) 0
        = Some \<lparr>properties = ''first'', geometry = \<lparr>gtype = ''Point'', coordinates = P 3 4\<rparr>\<rparr>
    \<and> js_index (features (getObject e')) 1
        = Some \<lparr>properties = ''second'', geometry = \<lparr>gtype = ''LineString'', coordinates = c'\<rparr>\<rparr>
    \<and> others (getObject e') = ''FeatureCollection''"
    by blast
  from inst ed rp obtain this' s' vs new where
    "replacePosition_st (VRef 11) 1 (Some [2]) (VRef 12) two_features_store = (Inr this', s')"
    "prefix two_features_store s'"
    "features_st two_features_store (VRef 11) = Some vs"
    "features_st s' this' = Some (vs[nat 1 := new])"
    "deref two_features_store new = None"
    by blast
  then have d: "\<exists>this' s' new.
          replacePosition_st (VRef 11) 1 (Some [2]) (VRef 12) two_features_store = (Inr this', s')
        \<and> prefix two_features_store s'
        \<and> features_st s' this' = Some [VRef 2, new]
        \<and> deref two_features_store new = None"
    unfolding two_features_store_features by auto
  show ?thesis by (intro conjI h1 h2' ed rp c d)
qed

text \<open>
  C7. For a feature of a supported type whose coordinates are arrays down to the nesting
  of the type and whose rings, when it is a Polygon or a MultiPolygon, are closed:
  replacing the position a handle of \<open>getEditHandles\<close> addresses by the position of
  that handle returns a collection equal to the original one.
\<close>

theorem replace_handle_with_its_position_is_noop:
  assumes "js_index (features (getObject e)) featureIndex = Some f"
    and "nesting (gtype (geometry f)) = Some d"
    and "nested_arrays d (coordinates (geometry f))"
    and "rings_closed (geometry f)"
    and "getEditHandles e featureIndex = Inr hs"
    and "h \<in> set hs"
  shows "replacePosition e featureIndex (Some (positionIndexes h)) (position h) = Inr e"
proof -
  let ?c = "coordinates (geometry f)"
  have "hs = vertex_handles d ?c"
    using getEditHandles_eq[OF assms(1-3)] assms(5) by simp
  with assms(6) have len: "length (positionIndexes h) = d"
    and l: "lookup_path ?c (positionIndexes h) = Some (position h)"
    using vertex_handles_sound by blast+
  have "isPolygonal_of (geometry f) \<longrightarrow> rings_closed_at (length (positionIndexes h) - 1) ?c"
    using assms(2,4) unfolding len
    by (auto simp: isPolygonal_of_def rings_closed_def nesting_def numeral_2_eq_2)
  from replace_noop[OF l this]
  have "immutablyReplacePosition ?c (Some (positionIndexes h)) (position h)
          (isPolygonal_of (geometry f)) = Inr ?c" .
  from replacePosition_valid[OF assms(1) this]
  have "replacePosition e featureIndex (Some (positionIndexes h)) (position h)
          = Inr (EditableFeatureCollection ((getObject e)
              \<lparr>features := (features (getObject e))[nat featureIndex := f]\<rparr>))"
    by simp
  moreover have "(features (getObject e))[nat featureIndex := f] = features (getObject e)"
    using assms(1) by (auto simp: js_index_def split: if_splits)
  ultimately show ?thesis by simp
qed

theorem replace_handle_with_its_position_is_noop_witness:
  "js_index (features (getObject square_polygon)) 0
     = Some \<lparr>properties = (), geometry = \<lparr>gtype = ''Polygon'', coordinates = Arr [Arr square_ring]\<rparr>\<rparr>
   \<and> nesting ''Polygon'' = Some 2
   \<and> nested_arrays 2 (Arr [Arr square_ring])
   \<and> rings_closed \<lparr>gtype = ''Polygon'', coordinates = Arr [Arr square_ring]\<rparr>
   \<and> replacePosition square_polygon 0 (Some [0, 4]) (P 0 0) = Inr square_polygon"
proof -
  let ?g = "\<lparr>gtype = ''Polygon'', coordinates = Arr [Arr square_ring]\<rparr>"
  let ?f = "\<lparr>properties = (), geometry = ?g\<rparr>"
  let ?h = "\<lparr>position = P 0 0, positionIndexes = [0, 4]\<rparr>"
  have h1: "js_index (features (getObject square_polygon)) 0 = Some ?f"
    by (simp add: square_polygon_def collection_of_def js_index_def)
  have h2': "nesting ''Polygon'' = Some 2" by (simp add: nesting_def)
  then have h2: "nesting (gtype (geometry ?f)) = Some 2" by simp
  have h3': "nested_arrays 2 (Arr [Arr square_ring])"
    by (simp add: numeral_2_eq_2 square_ring_def)
  then have h3: "nested_arrays 2 (coordinates (geometry ?f))" by simp
  have h4': "rings_closed ?g"
    by (simp add: rings_closed_def ring_closed_def square_ring_def element_def js_index_def)
  then have h4: "rings_closed (geometry ?f)" by simp
  have h6: "?h \<in> set [\<lparr>position = P 0 0, positionIndexes = [0, 0]\<rparr>,
      \<lparr>position = P 1 0, positionIndexes = [0, 1]\<rparr>,
      \<lparr>position = P 1 1, positionIndexes = [0, 2]\<rparr>,
      \<lparr>position = P 0 1, positionIndexes = [0, 3]\<rparr>,
      \<lparr>position = P 0 0, positionIndexes = [0, 4]\<rparr>]"
    by simp
  from replace_handle_with_its_position_is_noop[OF h1 h2 h3 h4 square_polygon_handles h6]
  have c: "replacePosition square_polygon 0 (Some [0, 4]) (P 0 0) = Inr square_polygon"
    by simp
  show ?thesis by (intro conjI h1 h2' h3' h4' c)
qed

text \<open>
  C8. For a feature of a supported type whose coordinates are arrays down to the nesting
  of the type, \<open>getEditHandles\<close> succeeds and returns as many handles as there are
  positions. The path of each handle has the length the type fixes (0 for Point, 1 for
  MultiPoint and LineString, 2 for Polygon and MultiLineString, 3 for MultiPolygon) and
  addresses the position of the handle; every position a path of that length addresses has
  its handle; the paths come in strictly increasing lexicographic order, which is the
  outer-to-inner order of the nesting, and so none occurs twice. The MultiPolygon of the
  claim is the instance of the witness: 8 handles, each with a path of 3 indexes.
\<close>

theorem listEditHandles_one_handle_per_vertex:
  assumes "js_index (features (getObject e)) featureIndex = Some f"
    and "nesting (gtype (geometry f)) = Some d"
    and "nested_arrays d (coordinates (geometry f))"
  shows "\<exists>hs. getEditHandles e featureIndex = Inr hs
     \<and> length hs = count_vertices d (coordinates (geometry f))
     \<and> (\<forall>h \<in> set hs. length (positionIndexes h) = d
           \<and> lookup_path (coordinates (geometry f)) (positionIndexes h) = Some (position h))
     \<and> (\<forall>path x. length path = d \<and> lookup_path (coordinates (geometry f)) path = Some x
           \<longrightarrow> \<lparr>position = x, positionIndexes = path\<rparr> \<in> set hs)
     \<and> sorted_wrt (<) (map positionIndexes hs)
     \<and> distinct (map positionIndexes hs)"
proof -
  let ?c = "coordinates (geometry f)"
  let ?hs = "vertex_handles d ?c"
  have r: "getEditHandles e featureIndex = Inr ?hs"
    using assms by (rule getEditHandles_eq)
  have n: "length ?hs = count_vertices d ?c"
    by (rule length_vertex_handles)
  have a: "\<forall>h \<in> set ?hs. length (positionIndexes h) = d
           \<and> lookup_path ?c (positionIndexes h) = Some (position h)"
    using vertex_handles_sound by blast
  have b: "\<forall>path x. length path = d \<and> lookup_path ?c path = Some x
           \<longrightarrow> \<lparr>position = x, positionIndexes = path\<rparr> \<in> set ?hs"
    using vertex_handles_complete by blast
  have s: "sorted_wrt (<) (map positionIndexes ?hs)"
    by (rule vertex_handles_sorted)
  then have d: "distinct (map positionIndexes ?hs)"
    using strict_sorted_iff by blast
  show ?thesis using r n a b s d by blast
qed

theorem listEditHandles_one_handle_per_vertex_witness:
  "js_index (features (getObject two_triangles)) 0
     = Some \<lparr>properties = (), geometry = \<lparr>gtype = ''MultiPolygon'',
         coordinates = Arr [Arr [Arr triangle_ring], Arr [Arr [P 2 2, P 3 2, P 3 3, P 2 2]]]\<rparr>\<rparr>
   \<and> nesting ''MultiPolygon'' = Some 3
   \<and> nested_arrays 3 (Arr [Arr [Arr triangle_ring], Arr [Arr [P 2 2, P 3 2, P 3 3, P 2 2]]])
   \<and> (\<exists>hs. getEditHandles two_triangles 0 = Inr hs
     \<and> length hs = 8
     \<and> (\<forall>h \<in> set hs. length (positionIndexes h) = 3)
     \<and> sorted_wrt (<) (map positionIndexes hs)
     \<and> distinct (map positionIndexes hs))"
proof -
  let ?c = "Arr [Arr [Arr triangle_ring], Arr [Arr [P 2 2, P 3 2, P 3 3, P 2 2]]]"
  let ?f = "\<lparr>properties = (), geometry = \<lparr>gtype = ''MultiPolygon'', coordinates = ?c\<rparr>\<rparr>"
  have h1: "js_index (features (getObject two_triangles)) 0 = Some ?f"
    by (simp add: two_triangles_def collection_of_def js_index_def)
  have h2': "nesting ''MultiPolygon'' = Some 3" by (simp add: nesting_def)
  then have h2: "nesting (gtype (geometry ?f)) = Some 3" by simp
  have h3': "nested_arrays 3 ?c"
    by (simp add: numeral_3_eq_3 triangle_ring_def)
  then have h3: "nested_arrays 3 (coordinates (geometry ?f))" by simp
  have cnt: "count_vertices 3 ?c = 8"
    by (simp add: numeral_3_eq_3 triangle_ring_def)
  from listEditHandles_one_handle_per_vertex[OF h1 h2 h3] obtain hs where
    "getEditHandles two_triangles 0 = Inr hs"
    "length hs = count_vertices 3 (coordinates (geometry ?f))"
    "\<forall>h \<in> set hs. length (positionIndexes h) = 3
           \<and> lookup_path (coordinates (geometry ?f)) (positionIndexes h) = Some (position h)"
    "sorted_wrt (<) (map positionIndexes hs)"
    "distinct (map positionIndexes hs)"
    by blast
  then have c: "\<exists>hs. getEditHandles two_triangles 0 = Inr hs
     \<and> length hs = 8
     \<and> (\<forall>h \<in> set hs. length (positionIndexes h) = 3)
     \<and> sorted_wrt (<) (map positionIndexes hs)
     \<and> distinct (map positionIndexes hs)"
    using cnt by auto
  show ?thesis by (intro conjI h1 h2' h3' c)
qed




text \<open>
  C10. With a feature index that addresses a feature and no path (\<open>null\<close> or
  \<open>undefined\<close>), \<open>replacePosition\<close> and \<open>removePosition\<close> raise nothing and
  return a collection equal to the original one, coordinates included; with the empty path
  \<open>removePosition\<close> raises \<open>Must specify the index of the position to remove\<close>.
  Over a store, for any editor that wraps the collection, the two calls without a path
  return an editor allocated by the call that stands for the same collection value, and
  the removal with the empty path fails with the same error.
\<close>

theorem absent_path_returns_collection_unchanged:
  assumes "js_index (features (getObject e)) featureIndex = Some f"
  shows "replacePosition e featureIndex None newPosition = Inr e
       \<and> removePosition e featureIndex None = Inr e
       \<and> removePosition e featureIndex (Some []) = Inl must_specify
       \<and> (repr_editor s this e \<longrightarrow>
             returns_new_editor_for s e (replacePosition_st this featureIndex None p s)
           \<and> returns_new_editor_for s e (removePosition_st this featureIndex None s)
           \<and> fst (removePosition_st this featureIndex (Some []) s) = Inl must_specify)"
proof -
  have same: "(features (getObject e))[nat featureIndex := f] = features (getObject e)"
    using assms by (auto simp: js_index_def split: if_splits)
  have a: "replacePosition e featureIndex None newPosition = Inr e"
    using replacePosition_valid[OF assms, of None newPosition "coordinates (geometry f)"]
    by (simp add: same)
  have b: "removePosition e featureIndex None = Inr e"
    using removePosition_valid[OF assms, of None "coordinates (geometry f)"]
    by (simp add: same)
  have c: "removePosition e featureIndex (Some []) = Inl must_specify"
    using removePosition_error[OF assms, of "Some []" must_specify]
    by (simp add: must_specify_def)
  have st: "returns_new_editor_for s e (replacePosition_st this featureIndex None p s)
           \<and> returns_new_editor_for s e (removePosition_st this featureIndex None s)
           \<and> fst (removePosition_st this featureIndex (Some []) s) = Inl must_specify"
    if ed: "repr_editor s this e"
  proof (intro conjI)
    have "sim repr_editor (replacePosition_st this featureIndex None p s) (Inr e)"
      using replacePosition_st_refines[OF ed, of None p newPosition featureIndex]
      unfolding a by simp
    then show "returns_new_editor_for s e (replacePosition_st this featureIndex None p s)"
      using replacePosition_st_new_editor by (rule returns_new_editor_forI)
    have "sim repr_editor (removePosition_st this featureIndex None s) (Inr e)"
      using removePosition_st_refines[OF ed, of featureIndex None] unfolding b .
    then show "returns_new_editor_for s e (removePosition_st this featureIndex None s)"
      using removePosition_st_new_editor by (rule returns_new_editor_forI)
    have "sim repr_editor (removePosition_st this featureIndex (Some []) s) (Inl must_specify)"
      using removePosition_st_refines[OF ed, of featureIndex "Some []"] unfolding c .
    then show "fst (removePosition_st this featureIndex (Some []) s) = Inl must_specify"
      by (rule sim_InlD)
  qed
  show ?thesis using a b c st by blast
qed

theorem absent_path_returns_collection_unchanged_witness:
  "js_index (features (getObject triangle_polygon)) 0
     = Some \<lparr>properties = (), geometry = \<lparr>gtype = ''Polygon'', coordinates = Arr [Arr triangle_ring]\<rparr>\<rparr>
   \<and> repr_editor triangle_store (VRef 9) triangle_polygon
   \<and> replacePosition triangle_polygon 0 None (P 5 5) = Inr triangle_polygon
   \<and> removePosition triangle_polygon 0 None = Inr triangle_polygon
   \<and> removePosition triangle_polygon 0 (Some []) = Inl must_specify
   \<and> returns_new_editor_for triangle_store triangle_polygon
        (replacePosition_st (VRef 9) 0 None (VRef 10) triangle_store)
   \<and> returns_new_editor_for triangle_store triangle_polygon
        (removePosition_st (VRef 9) 0 None triangle_store)
   \<and> fst (removePosition_st (VRef 9) 0 (Some []) triangle_store) = Inl must_specify"
proof -
  let ?f = "\<lparr>properties = (), geometry = \<lparr>gtype = ''Polygon'', coordinates = Arr [Arr triangle_ring]\<rparr>\<rparr>"
  have h1: "js_index (features (getObject triangle_polygon)) 0 = Some ?f"
    by (simp add: triangle_polygon_def collection_of_def js_index_def)
  have ed: "repr_editor triangle_store (VRef 9) triangle_polygon"
    by (rule triangle_store_repr)
  from absent_path_returns_collection_unchanged[OF h1, of "P 5 5" triangle_store "VRef 9" "VRef 10"]
    h1 ed
  show ?thesis by blast
qed

end
